theory Spec2Isabelle
  imports Main
begin

section \<open>The text and Python's character classes\<close>

text \<open>
  The source text is a Python \<open>str\<close>, indexed by code point. It is modelled as a
  \<open>string\<close> in which one \<open>char\<close> stands for one code point, so the model covers the
  code points 0 to 255; \<open>length\<close> and every position count code points, as
  \<open>len(input_text)\<close> and \<open>match.end()\<close> do.

  \<open>is_word\<close> is the class \<open>\w\<close> and \<open>is_space\<close> the class \<open>\s\<close> of Python's
  \<open>re\<close> on a \<open>str\<close> pattern, restricted to these code points.
\<close>

definition is_word :: "char \<Rightarrow> bool" where
  "is_word c =
     (let n = (of_char c :: nat)
      in (48 \<le> n \<and> n \<le> 57) \<or> (65 \<le> n \<and> n \<le> 90) \<or> n = 95 \<or> (97 \<le> n \<and> n \<le> 122)
         \<or> n = 170 \<or> n = 178 \<or> n = 179 \<or> n = 181 \<or> n = 185 \<or> n = 186
         \<or> (188 \<le> n \<and> n \<le> 190) \<or> (192 \<le> n \<and> n \<le> 214)
         \<or> (216 \<le> n \<and> n \<le> 246) \<or> 248 \<le> n)"

definition is_space :: "char \<Rightarrow> bool" where
  "is_space c =
     (let n = (of_char c :: nat)
      in (9 \<le> n \<and> n \<le> 13) \<or> (28 \<le> n \<and> n \<le> 32) \<or> n = 133 \<or> n = 160)"

section \<open>Regular expressions as Python's \<open>re\<close> matches them\<close>

text \<open>
  The patterns of \<open>TOKEN_TYPES\<close> use literals, \<open>.\<close>, character sets, \<open>\b\<close>,
  concatenation, \<open>|\<close>, and the quantifiers \<open>*\<close>, \<open>+\<close>, \<open>?\<close> and \<open>*?\<close>. Groups only
  bracket (no back-reference is used), so they leave no trace in the syntax tree.
\<close>

datatype citem = CChar char | CRange char char | CWord | CSpace | CNonSpace

datatype regex =
    Lit string
  | Dot
  | InSet "citem list"
  | NotInSet "citem list"
  | WordB
  | Cat regex regex
  | Alt regex regex
  | Star regex
  | Plus regex
  | Opt regex
  | LazyStar regex

fun in_citem :: "char \<Rightarrow> citem \<Rightarrow> bool" where
  "in_citem c (CChar d) = (c = d)"
| "in_citem c (CRange lo hi) = ((of_char lo :: nat) \<le> of_char c \<and> (of_char c :: nat) \<le> of_char hi)"
| "in_citem c CWord = is_word c"
| "in_citem c CSpace = is_space c"
| "in_citem c CNonSpace = (\<not> is_space c)"

definition in_cset :: "char \<Rightarrow> citem list \<Rightarrow> bool" where
  "in_cset c items = (\<exists>i \<in> set items. in_citem c i)"

text \<open>
  A cursor is a position in the text, kept as the character before it (if any) and the
  text from it on. \<open>\b\<close> needs the character before: \<open>regex.match(input_text, position)\<close>
  looks at the whole text, not at a slice.
\<close>

type_synonym cursor = "char option \<times> string"

definition at_word_boundary :: "cursor \<Rightarrow> bool" where
  "at_word_boundary cur =
     ((case fst cur of None \<Rightarrow> False | Some c \<Rightarrow> is_word c)
      \<noteq> (case snd cur of [] \<Rightarrow> False | c # _ \<Rightarrow> is_word c))"

fun lit_ends :: "string \<Rightarrow> cursor \<Rightarrow> cursor list" where
  "lit_ends [] cur = [cur]"
| "lit_ends (x # xs) (p, []) = []"
| "lit_ends (x # xs) (p, c # cs) = (if c = x then lit_ends xs (Some c, cs) else [])"

definition one_char :: "(char \<Rightarrow> bool) \<Rightarrow> cursor \<Rightarrow> cursor list" where
  "one_char ok cur = (case snd cur of [] \<Rightarrow> [] | c # cs \<Rightarrow> if ok c then [(Some c, cs)] else [])"

text \<open>
  The backtracking matcher tries the alternatives of a pattern in a fixed order and
  returns the first complete match. \<open>ends r cur\<close> lists, in that order, the cursors at
  which a match of \<open>r\<close> starting at \<open>cur\<close> can end; the head of the list is the match
  \<open>re\<close> reports. A greedy repetition tries one more iteration before it tries to
  stop; a lazy one tries to stop first. The repetitions carry the number of characters
  left as a bound on the iterations.
\<close>

fun greedy :: "(cursor \<Rightarrow> cursor list) \<Rightarrow> nat \<Rightarrow> cursor \<Rightarrow> cursor list" where
  "greedy f 0 cur = [cur]"
| "greedy f (Suc n) cur = concat (map (greedy f n) (f cur)) @ [cur]"

fun lazy :: "(cursor \<Rightarrow> cursor list) \<Rightarrow> nat \<Rightarrow> cursor \<Rightarrow> cursor list" where
  "lazy f 0 cur = [cur]"
| "lazy f (Suc n) cur = cur # concat (map (lazy f n) (f cur))"

primrec ends :: "regex \<Rightarrow> cursor \<Rightarrow> cursor list" where
  "ends (Lit s) = lit_ends s"
| "ends Dot = one_char (\<lambda>c. c \<noteq> CHR 0x0A)"
| "ends (InSet items) = one_char (\<lambda>c. in_cset c items)"
| "ends (NotInSet items) = one_char (\<lambda>c. \<not> in_cset c items)"
| "ends WordB = (\<lambda>cur. if at_word_boundary cur then [cur] else [])"
| "ends (Cat r1 r2) = (\<lambda>cur. concat (map (ends r2) (ends r1 cur)))"
| "ends (Alt r1 r2) = (\<lambda>cur. ends r1 cur @ ends r2 cur)"
| "ends (Star r) = (\<lambda>cur. greedy (ends r) (length (snd cur)) cur)"
| "ends (Plus r) = (\<lambda>cur. concat (map (\<lambda>c. greedy (ends r) (length (snd c)) c) (ends r cur)))"
| "ends (Opt r) = (\<lambda>cur. ends r cur @ [cur])"
| "ends (LazyStar r) = (\<lambda>cur. lazy (ends r) (length (snd cur)) cur)"

fun seq :: "regex list \<Rightarrow> regex" where
  "seq [] = Lit []"
| "seq [r] = r"
| "seq (r # rs) = Cat r (seq rs)"

definition cursor_at :: "string \<Rightarrow> nat \<Rightarrow> cursor" where
  "cursor_at text pos = (if pos = 0 then None else Some (text ! (pos - 1)), drop pos text)"

text \<open>
  \<open>re_match pattern text pos\<close> is \<open>re.compile(pattern).match(text, pos)\<close> for
  \<open>pos \<le> len(text)\<close>: \<open>None\<close> when the pattern does not match at \<open>pos\<close>, and otherwise
  \<open>match.end()\<close>. The matched text \<open>match.group(0)\<close> is the text from \<open>pos\<close> to there.
\<close>

definition re_match :: "regex \<Rightarrow> string \<Rightarrow> nat \<Rightarrow> nat option" where
  "re_match pattern text pos =
     (case ends pattern (cursor_at text pos) of
        [] \<Rightarrow> None
      | cur # _ \<Rightarrow> Some (length text - length (snd cur)))"

definition group0 :: "string \<Rightarrow> nat \<Rightarrow> nat \<Rightarrow> string" where
  "group0 text pos e = take (e - pos) (drop pos text)"

section \<open>The token table\<close>

definition word_set :: regex where "word_set = InSet [CWord]"
definition space_set :: regex where "space_set = InSet [CSpace]"

definition identifier_pattern :: regex where
  \<comment> \<open>\<^verbatim>\<open>\b[a-zA-Z_]\w*\b\<close>\<close>
  "identifier_pattern =
     seq [WordB, InSet [CRange CHR ''a'' CHR ''z'', CRange CHR ''A'' CHR ''Z'', CChar CHR ''_''],
          Star word_set, WordB]"

definition TOKEN_TYPES :: "(string \<times> regex) list" where
  \<open>TOKEN_TYPES =
   [ \<comment> \<open>\<^verbatim>\<open>folder\s+(\w+(\.\w+)*)\<close>\<close>
     (''FOLDER'', seq [Lit ''folder'', Plus space_set, Plus word_set,
                       Star (seq [Lit ''.'', Plus word_set])]),
     \<comment> \<open>\<^verbatim>\<open>class\s+(\w+)\<close>\<close>
     (''CLASS'', seq [Lit ''class'', Plus space_set, Plus word_set]),
     \<comment> \<open>\<^verbatim>\<open>variable\s+(\w+)(->\w+)?\s*=\s*("[^"]*"|\btrue\b|\bfalse\b|\b[a-zA-Z_]\w*\b)\<close>\<close>
     (''VARIABLE'', seq [Lit ''variable'', Plus space_set, Plus word_set,
                         Opt (seq [Lit ''->'', Plus word_set]),
                         Star space_set, Lit ''='', Star space_set,
                         Alt (seq [Lit [CHR 0x22], Star (NotInSet [CChar (CHR 0x22)]), Lit [CHR 0x22]])
                          (Alt (seq [WordB, Lit ''true'', WordB])
                           (Alt (seq [WordB, Lit ''false'', WordB])
                                identifier_pattern))]),
     \<comment> \<open>\<^verbatim>\<open>function\s+(\w+)\<close>\<close>
     (''FUNCTION'', seq [Lit ''function'', Plus space_set, Plus word_set]),
     (''IF'', Lit ''if''),
     (''NOT'', Lit ''not''),
     \<comment> \<open>\<^verbatim>\<open>but if|otherwise\<close>\<close>
     (''ELSE'', Alt (Lit ''but if'') (Lit ''otherwise'')),
     \<comment> \<open>\<^verbatim>\<open>import\s+([\w.]+)\<close>\<close>
     (''IMPORT'', seq [Lit ''import'', Plus space_set, Plus (InSet [CWord, CChar CHR ''.''])]),
     (''IDENTIFIER'', identifier_pattern),
     \<comment> \<open>\<^verbatim>\<open>"(?:[^"\\]|\\.)*"\<close>\<close>
     (''STRING'', seq [Lit [CHR 0x22],
                       Star (Alt (NotInSet [CChar (CHR 0x22), CChar (CHR 0x5C)])
                                 (seq [Lit [CHR 0x5C], Dot])),
                       Lit [CHR 0x22]]),
     \<comment> \<open>\<^verbatim>\<open>//.*|/\*[\s\S]*?\*/\<close>\<close>
     (''COMMENT'', Alt (seq [Lit ''//'', Star Dot])
                       (seq [Lit ''/*'', LazyStar (InSet [CSpace, CNonSpace]), Lit ''*/''])),
     (''LPAREN'', Lit ''(''),
     (''RPAREN'', Lit '')''),
     (''LBRACE'', Lit ''{''),
     (''RBRACE'', Lit ''}''),
     (''SEMICOLON'', Lit '';''),
     (''DOT'', Lit ''.''),
     (''YEET'', Lit ''yeet''),
     (''ARROW'', Lit ''->''),
     (''BOOLEAN'', Alt (Lit ''true'') (Lit ''false'')) ]\<close>

definition KEYWORDS :: "string set" where
  "KEYWORDS = {''if'', ''not'', ''but'', ''otherwise'', ''yeet'', ''import''}"

text \<open>\<open>str.upper()\<close>; the lexer applies it to members of \<open>KEYWORDS\<close> only.\<close>

definition upper_char :: "char \<Rightarrow> char" where
  "upper_char c =
     (if (97::nat) \<le> of_char c \<and> (of_char c :: nat) \<le> 122 then char_of (of_char c - (32::nat)) else c)"

definition upper :: "string \<Rightarrow> string" where
  "upper s = map upper_char s"

section \<open>Every match is inside the text and every rule consumes a character\<close>

primrec minlen :: "regex \<Rightarrow> nat" where
  "minlen (Lit s) = length s"
| "minlen Dot = 1"
| "minlen (InSet items) = 1"
| "minlen (NotInSet items) = 1"
| "minlen WordB = 0"
| "minlen (Cat r1 r2) = minlen r1 + minlen r2"
| "minlen (Alt r1 r2) = min (minlen r1) (minlen r2)"
| "minlen (Star r) = 0"
| "minlen (Plus r) = minlen r"
| "minlen (Opt r) = 0"
| "minlen (LazyStar r) = 0"

lemma lit_ends_length:
  "c' \<in> set (lit_ends s cur) \<Longrightarrow> length (snd c') + length s = length (snd cur)"
  by (induction s cur rule: lit_ends.induct) (auto split: if_splits)

lemma one_char_length:
  "c' \<in> set (one_char ok cur) \<Longrightarrow> length (snd c') + 1 = length (snd cur)"
  by (cases cur) (auto simp: one_char_def split: list.splits if_splits)

lemma greedy_length:
  assumes "\<And>c c'. c' \<in> set (f c) \<Longrightarrow> length (snd c') \<le> length (snd c)"
  shows "c' \<in> set (greedy f n cur) \<Longrightarrow> length (snd c') \<le> length (snd cur)"
proof (induction n arbitrary: cur)
  case 0
  then show ?case by simp
next
  case (Suc n)
  from Suc.prems consider "c' = cur" | m where "m \<in> set (f cur)" "c' \<in> set (greedy f n m)"
    by auto
  then show ?case
  proof cases
    case 1
    then show ?thesis by simp
  next
    case 2
    from Suc.IH[OF 2(2)] assms[OF 2(1)] show ?thesis by simp
  qed
qed

lemma lazy_length:
  assumes "\<And>c c'. c' \<in> set (f c) \<Longrightarrow> length (snd c') \<le> length (snd c)"
  shows "c' \<in> set (lazy f n cur) \<Longrightarrow> length (snd c') \<le> length (snd cur)"
proof (induction n arbitrary: cur)
  case 0
  then show ?case by simp
next
  case (Suc n)
  from Suc.prems consider "c' = cur" | m where "m \<in> set (f cur)" "c' \<in> set (lazy f n m)"
    by auto
  then show ?case
  proof cases
    case 1
    then show ?thesis by simp
  next
    case 2
    from Suc.IH[OF 2(2)] assms[OF 2(1)] show ?thesis by simp
  qed
qed

lemma ends_length:
  "c' \<in> set (ends r cur) \<Longrightarrow> length (snd c') + minlen r \<le> length (snd cur)"
proof (induction r arbitrary: cur c')
  case (Lit s)
  then show ?case using lit_ends_length[of c' s cur] by simp
next
  case Dot
  then show ?case using one_char_length[of c' _ cur] by simp
next
  case (InSet items)
  then show ?case using one_char_length[of c' _ cur] by simp
next
  case (NotInSet items)
  then show ?case using one_char_length[of c' _ cur] by simp
next
  case WordB
  then show ?case by (simp split: if_splits)
next
  case (Cat r1 r2)
  then obtain m where "m \<in> set (ends r1 cur)" "c' \<in> set (ends r2 m)" by auto
  with Cat.IH(1)[of m cur] Cat.IH(2)[of c' m] show ?case by simp
next
  case (Alt r1 r2)
  then show ?case by (auto dest: Alt.IH)
next
  case (Star r)
  have "\<And>c c'. c' \<in> set (ends r c) \<Longrightarrow> length (snd c') \<le> length (snd c)"
    using Star.IH by fastforce
  from greedy_length[of "ends r", OF this] Star.prems show ?case by simp
next
  case (Plus r)
  have step: "\<And>c c'. c' \<in> set (ends r c) \<Longrightarrow> length (snd c') \<le> length (snd c)"
    using Plus.IH by fastforce
  from Plus.prems obtain m where m: "m \<in> set (ends r cur)"
    and c': "c' \<in> set (greedy (ends r) (length (snd m)) m)" by auto
  from greedy_length[of "ends r", OF step c'] Plus.IH[OF m] show ?case by simp
next
  case (Opt r)
  then show ?case by (auto dest: Opt.IH)
next
  case (LazyStar r)
  have "\<And>c c'. c' \<in> set (ends r c) \<Longrightarrow> length (snd c') \<le> length (snd c)"
    using LazyStar.IH by fastforce
  from lazy_length[of "ends r", OF this] LazyStar.prems show ?case by simp
qed

lemma re_match_bounds:
  assumes "re_match r text pos = Some e" "pos \<le> length text"
  shows "pos + minlen r \<le> e \<and> e \<le> length text"
proof -
  from assms(1) obtain c' cs where c': "ends r (cursor_at text pos) = c' # cs"
    and e: "e = length text - length (snd c')"
    by (auto simp: re_match_def split: list.splits)
  from c' have "c' \<in> set (ends r (cursor_at text pos))" by simp
  from ends_length[OF this] have "length (snd c') + minlen r \<le> length text - pos"
    by (simp add: cursor_at_def)
  with e assms(2) show ?thesis by simp
qed

lemma TOKEN_TYPES_minlen_all: "\<forall>(k, r) \<in> set TOKEN_TYPES. 1 \<le> minlen r"
  by (simp add: TOKEN_TYPES_def identifier_pattern_def word_set_def space_set_def)

lemma TOKEN_TYPES_minlen: "(k, r) \<in> set TOKEN_TYPES \<Longrightarrow> 1 \<le> minlen r"
  using TOKEN_TYPES_minlen_all by blast

section \<open>The lexer\<close>

type_synonym token = "string \<times> string"

datatype error =
    LexerError nat
    \<comment> \<open>\<^verbatim>\<open>Exception('Lexer error: Unrecognized token at position ' + str(position))\<close>\<close>
  | ParserExpected string "token option"
    \<comment> \<open>\<^verbatim>\<open>Exception(f'Parser error: Expected {token_type}, found {token}')\<close>\<close>
  | ParserUnexpected token
    \<comment> \<open>\<^verbatim>\<open>Exception(f'Parser error: Unexpected token {token}')\<close>\<close>
  | ParserUnexpectedValue
    \<comment> \<open>\<^verbatim>\<open>Exception('Parser error: Unexpected value')\<close>\<close>
  | TypeErrorNotSubscriptable
    \<comment> \<open>\<^verbatim>\<open>TypeError\<close>: \<open>None[0]\<close>, where \<open>peek()\<close> returned \<open>None\<close>\<close>
  | TypeErrorPositionalArguments
    \<comment> \<open>\<^verbatim>\<open>TypeError\<close>: \<open>peek()\<close> takes 0 positional arguments but 1 was given\<close>

text \<open>
  The \<open>for\<close> loop over \<open>TOKEN_TYPES\<close>: the first rule whose pattern matches at
  \<open>position\<close> ends the loop (\<open>break\<close>); the result is its name and \<open>match.end()\<close>, or
  \<open>None\<close> when the loop runs through.
\<close>

fun first_match :: "(string \<times> regex) list \<Rightarrow> string \<Rightarrow> nat \<Rightarrow> (string \<times> nat) option" where
  "first_match [] input_text position = None"
| "first_match ((token_type, pattern) # rules) input_text position =
     (case re_match pattern input_text position of
        Some e \<Rightarrow> Some (token_type, e)
      | None \<Rightarrow> first_match rules input_text position)"

lemma first_match_rule:
  "first_match rules input_text position = Some (k, e) \<Longrightarrow>
   \<exists>r. (k, r) \<in> set rules \<and> re_match r input_text position = Some e"
  by (induction rules input_text position rule: first_match.induct) (auto split: option.splits)

lemma first_match_progress:
  assumes "first_match TOKEN_TYPES input_text position = Some (k, e)" "position < length input_text"
  shows "position < e \<and> e \<le> length input_text"
proof -
  from first_match_rule[OF assms(1)] obtain r where
    r: "(k, r) \<in> set TOKEN_TYPES" "re_match r input_text position = Some e" by blast
  from re_match_bounds[OF r(2)] TOKEN_TYPES_minlen[OF r(1)] assms(2) show ?thesis by simp
qed

definition classify :: "string \<Rightarrow> string \<Rightarrow> string" where
  "classify token_type val =
     (if token_type = ''IDENTIFIER'' \<and> val \<in> KEYWORDS then upper val else token_type)"

function lexer_loop :: "string \<Rightarrow> nat \<Rightarrow> token list \<Rightarrow> error + token list" where
  "lexer_loop input_text position tokens =
     (if position < length input_text then
        (case first_match TOKEN_TYPES input_text position of
           None \<Rightarrow> Inl (LexerError position)
         | Some (token_type, e) \<Rightarrow>
             (let val = group0 input_text position e;
                  token_type = classify token_type val
              in lexer_loop input_text e
                   (if token_type \<noteq> ''COMMENT'' then tokens @ [(token_type, val)] else tokens)))
      else Inr tokens)"
  by pat_completeness auto
termination
proof (relation "measure (\<lambda>(input_text, position, tokens). length input_text - position)")
  show "wf (measure (\<lambda>(input_text, position, tokens). length input_text - position))"
    by simp
next
  fix input_text :: string and position :: nat and tokens :: "token list"
    and x2 :: "string \<times> nat" and token_type :: string and e :: nat
    and val :: string and token_type' :: string
  assume "position < length input_text"
    and "first_match TOKEN_TYPES input_text position = Some x2"
    and "(token_type, e) = x2"
  then have "position < e" and "e \<le> length input_text"
    using first_match_progress[of input_text position token_type e] by simp_all
  then show "((input_text, e,
               if token_type' \<noteq> ''COMMENT'' then tokens @ [(token_type', val)] else tokens),
              input_text, position, tokens)
             \<in> measure (\<lambda>(input_text, position, tokens). length input_text - position)"
    by (simp add: diff_less_mono2)
qed

definition lexer :: "string \<Rightarrow> error + token list" where
  "lexer input_text = lexer_loop input_text 0 []"

declare lexer_loop.simps [simp del]

section \<open>Characters at which no rule can start\<close>

primrec zero_width :: "regex \<Rightarrow> bool" where
  "zero_width (Lit s) = (s = [])"
| "zero_width Dot = False"
| "zero_width (InSet items) = False"
| "zero_width (NotInSet items) = False"
| "zero_width WordB = True"
| "zero_width (Cat r1 r2) = False"
| "zero_width (Alt r1 r2) = False"
| "zero_width (Star r) = False"
| "zero_width (Plus r) = False"
| "zero_width (Opt r) = False"
| "zero_width (LazyStar r) = False"

text \<open>
  \<open>may_start r c\<close> is a syntactic over-approximation: if it is false, no match of
  \<open>r\<close> starts at a cursor whose next character is \<open>c\<close>.
\<close>

primrec may_start :: "regex \<Rightarrow> char \<Rightarrow> bool" where
  "may_start (Lit s) c = (case s of [] \<Rightarrow> True | x # _ \<Rightarrow> x = c)"
| "may_start Dot c = (c \<noteq> CHR 0x0A)"
| "may_start (InSet items) c = in_cset c items"
| "may_start (NotInSet items) c = (\<not> in_cset c items)"
| "may_start WordB c = True"
| "may_start (Cat r1 r2) c = (may_start r1 c \<and> (zero_width r1 \<longrightarrow> may_start r2 c))"
| "may_start (Alt r1 r2) c = (may_start r1 c \<or> may_start r2 c)"
| "may_start (Star r) c = True"
| "may_start (Plus r) c = may_start r c"
| "may_start (Opt r) c = True"
| "may_start (LazyStar r) c = True"

lemma zero_width_ends: "zero_width r \<Longrightarrow> m \<in> set (ends r cur) \<Longrightarrow> m = cur"
  by (cases r) (auto split: if_splits)

lemma may_start_ends: "\<not> may_start r c \<Longrightarrow> ends r (p, c # cs) = []"
proof (induction r)
  case (Lit s)
  then show ?case by (cases s) auto
next
  case (Cat r1 r2)
  show ?case
  proof (cases "may_start r1 c")
    case False
    with Cat.IH(1) show ?thesis by simp
  next
    case True
    with Cat.prems have zw: "zero_width r1" and n2: "\<not> may_start r2 c" by auto
    have "ends r2 m = []" if "m \<in> set (ends r1 (p, c # cs))" for m
      using zero_width_ends[OF zw that] Cat.IH(2)[OF n2] by simp
    then show ?thesis by simp
  qed
qed (auto simp: one_char_def)

lemma first_match_none:
  assumes "\<forall>(k, r) \<in> set rules. \<not> may_start r (input_text ! position)"
    and "position < length input_text"
  shows "first_match rules input_text position = None"
  using assms(1)
proof (induction rules)
  case Nil
  then show ?case by simp
next
  case (Cons kr rules)
  obtain k r where kr: "kr = (k, r)" by (cases kr)
  have "drop position input_text = input_text ! position # drop (Suc position) input_text"
    using assms(2) by (simp add: Cons_nth_drop_Suc)
  then obtain p0 cs0 where
    cur: "cursor_at input_text position = (p0, input_text ! position # cs0)"
    by (simp add: cursor_at_def)
  from Cons.prems kr have "\<not> may_start r (input_text ! position)" by simp
  from may_start_ends[OF this, of p0 cs0] cur have "re_match r input_text position = None"
    by (simp add: re_match_def)
  with Cons kr show ?case by simp
qed

lemma lexer_loop_no_match:
  "position < length input_text \<Longrightarrow> first_match TOKEN_TYPES input_text position = None \<Longrightarrow>
   lexer_loop input_text position tokens = Inl (LexerError position)"
  by (subst lexer_loop.simps) simp

lemma TOKEN_TYPES_not_at_sign: "\<forall>(k, r) \<in> set TOKEN_TYPES. \<not> may_start r (CHR ''@'')"
  by (simp add: TOKEN_TYPES_def identifier_pattern_def word_set_def space_set_def in_cset_def)

lemma TOKEN_TYPES_not_space:
  "is_space c \<Longrightarrow> \<forall>(k, r) \<in> set TOKEN_TYPES. \<not> may_start r c"
  by (auto simp: TOKEN_TYPES_def identifier_pattern_def word_set_def space_set_def in_cset_def
        is_space_def)

lemma lexer_loop_error_position:
  "lexer_loop input_text position tokens = Inl err \<Longrightarrow>
   \<exists>p. err = LexerError p \<and> position \<le> p \<and> p < length input_text
       \<and> first_match TOKEN_TYPES input_text p = None"
proof (induction input_text position tokens rule: lexer_loop.induct)
  case (1 input_text position tokens)
  show ?case
  proof (cases "position < length input_text")
    case False
    with "1.prems" show ?thesis by (subst (asm) lexer_loop.simps) simp
  next
    case True
    show ?thesis
    proof (cases "first_match TOKEN_TYPES input_text position")
      case None
      with True "1.prems" show ?thesis by (subst (asm) lexer_loop.simps) auto
    next
      case (Some ke)
      obtain k e where ke: "ke = (k, e)" by (cases ke)
      define toks where "toks =
        (if classify k (group0 input_text position e) \<noteq> ''COMMENT''
         then tokens @ [(classify k (group0 input_text position e), group0 input_text position e)]
         else tokens)"
      from "1.prems" True Some ke
      have run: "lexer_loop input_text e toks = Inl err"
        unfolding toks_def by (subst (asm) lexer_loop.simps) (auto simp: Let_def split: if_splits)
      from "1.IH"[OF True Some ke[symmetric] refl refl] run
      obtain p where p: "err = LexerError p" "e \<le> p" "p < length input_text"
        "first_match TOKEN_TYPES input_text p = None"
        unfolding toks_def by blast
      from first_match_progress[of input_text position k e] Some ke True have "position < e"
        by simp
      with p show ?thesis by auto
    qed
  qed
qed

lemma first_match_first:
  "first_match rules input_text position = Some (k, e) \<Longrightarrow>
   \<exists>i<length rules. fst (rules ! i) = k \<and> re_match (snd (rules ! i)) input_text position = Some e
     \<and> (\<forall>j<i. re_match (snd (rules ! j)) input_text position = None)"
proof (induction rules)
  case Nil
  then show ?case by simp
next
  case (Cons kr rules)
  obtain k0 r0 where kr: "kr = (k0, r0)" by (cases kr)
  show ?case
  proof (cases "re_match r0 input_text position")
    case (Some e0)
    with Cons.prems kr have "k = k0" "e = e0" by simp_all
    with Some kr have "fst ((kr # rules) ! 0) = k
        \<and> re_match (snd ((kr # rules) ! 0)) input_text position = Some e
        \<and> (\<forall>j<0. re_match (snd ((kr # rules) ! j)) input_text position = None)"
      by simp
    then show ?thesis by (intro exI[of _ 0]) simp
  next
    case None
    with Cons.prems kr have "first_match rules input_text position = Some (k, e)" by simp
    from Cons.IH[OF this] obtain i where i: "i < length rules" "fst (rules ! i) = k"
      "re_match (snd (rules ! i)) input_text position = Some e"
      "\<forall>j<i. re_match (snd (rules ! j)) input_text position = None" by blast
    have "re_match (snd ((kr # rules) ! j)) input_text position = None" if "j < Suc i" for j
      using that i(4) None kr by (cases j) auto
    with i(1-3) show ?thesis by (intro exI[of _ "Suc i"]) simp
  qed
qed

lemma lexer_loop_step:
  "position < length input_text \<Longrightarrow> first_match TOKEN_TYPES input_text position = Some (k, e) \<Longrightarrow>
   lexer_loop input_text position tokens
   = lexer_loop input_text e
       (if classify k (group0 input_text position e) \<noteq> ''COMMENT''
        then tokens @ [(classify k (group0 input_text position e), group0 input_text position e)]
        else tokens)"
  by (subst lexer_loop.simps) (simp add: Let_def)

lemma lexer_loop_no_comment:
  "lexer_loop input_text position tokens = Inr out \<Longrightarrow>
   \<forall>t \<in> set tokens. fst t \<noteq> ''COMMENT'' \<Longrightarrow> \<forall>t \<in> set out. fst t \<noteq> ''COMMENT''"
proof (induction input_text position tokens rule: lexer_loop.induct)
  case (1 input_text position tokens)
  show ?case
  proof (cases "position < length input_text")
    case False
    with "1.prems" show ?thesis by (subst (asm) lexer_loop.simps) simp
  next
    case True
    show ?thesis
    proof (cases "first_match TOKEN_TYPES input_text position")
      case None
      with True "1.prems"(1) show ?thesis by (subst (asm) lexer_loop.simps) simp
    next
      case (Some ke)
      obtain k e where ke: "ke = (k, e)" by (cases ke)
      define toks where "toks =
        (if classify k (group0 input_text position e) \<noteq> ''COMMENT''
         then tokens @ [(classify k (group0 input_text position e), group0 input_text position e)]
         else tokens)"
      from "1.prems"(1) True Some ke
      have run: "lexer_loop input_text e toks = Inr out"
        unfolding toks_def by (subst (asm) lexer_loop.simps) (auto simp: Let_def split: if_splits)
      have inv: "\<forall>t \<in> set toks. fst t \<noteq> ''COMMENT''"
        using "1.prems"(2) by (auto simp: toks_def)
      from "1.IH"[OF True Some ke[symmetric] refl refl] run inv
      show ?thesis unfolding toks_def by blast
    qed
  qed
qed

section \<open>The syntax tree\<close>

text \<open>
  \<open>class Node\<close>: a type name, the children and a value. \<open>parse_value\<close> returns a \<open>str\<close>
  or a \<open>bool\<close>; the value of a node is \<open>None\<close>, a \<open>str\<close>, or for a variable declaration
  the tuple \<open>(name, arrow, value)\<close>.
\<close>

datatype pyvalue = VStr string | VBool bool

datatype payload = NoValue | StrValue string | VarValue string "string option" pyvalue

datatype node = Node (node_type: string) (children: "node list") (node_value: payload)

section \<open>The parser\<close>

text \<open>
  The closures of \<open>parse\<close> share \<open>tokens\<close> and the mutable \<open>index\<close>. Each of them is
  modelled as a function of \<open>tokens\<close> and the \<open>index\<close> at the call that returns the
  exception raised, or the result together with the \<open>index\<close> at the return.
\<close>

definition peek :: "token list \<Rightarrow> nat \<Rightarrow> token option" where
  "peek tokens index = (if index < length tokens then Some (tokens ! index) else None)"

text \<open>
  \<open>peek\<close> is declared without parameters. \<open>parse_statement\<close> calls \<open>peek(1)\<close>; Python
  raises \<open>TypeError\<close> at such a call before the body of \<open>peek\<close> runs.
\<close>

definition peek_args :: "token list \<Rightarrow> nat \<Rightarrow> nat list \<Rightarrow> error + token option" where
  "peek_args tokens index args =
     (if args = [] then Inr (peek tokens index) else Inl TypeErrorPositionalArguments)"

definition consume :: "token list \<Rightarrow> nat \<Rightarrow> string \<Rightarrow> error + (token \<times> nat)" where
  "consume tokens index token_type =
     (case peek tokens index of
        Some token \<Rightarrow>
          if fst token = token_type then Inr (token, index + 1)
          else Inl (ParserExpected token_type (Some token))
      | None \<Rightarrow> Inl (ParserExpected token_type None))"

lemma consume_Inr:
  "consume tokens index token_type = Inr (token, i) \<Longrightarrow>
   i = Suc index \<and> index < length tokens \<and> token = tokens ! index \<and> fst token = token_type"
  by (auto simp: consume_def peek_def split: option.splits if_splits)

function import_loop :: "token list \<Rightarrow> nat \<Rightarrow> string \<Rightarrow> error + (string \<times> nat)" where
  "import_loop tokens index module_name =
     (case peek tokens index of
        None \<Rightarrow> Inr (module_name, index)
      | Some token \<Rightarrow>
          if fst token = ''DOT'' then
            (case consume tokens index ''DOT'' of
               Inl e \<Rightarrow> Inl e
             | Inr (_, i1) \<Rightarrow>
                 (case consume tokens i1 ''IDENTIFIER'' of
                    Inl e \<Rightarrow> Inl e
                  | Inr (name, i2) \<Rightarrow> import_loop tokens i2 (module_name @ ''.'' @ snd name)))
          else Inr (module_name, index))"
  by pat_completeness auto
termination
  apply (relation "measure (\<lambda>(tokens, index, module_name). length tokens - index)")
   apply simp
  apply (auto dest!: consume_Inr)
  done


lemma import_loop_index:
  "import_loop tokens index m = Inr (name, i) \<Longrightarrow> index \<le> i"
proof (induction tokens index m rule: import_loop.induct)
  case (1 tokens index m)
  show ?case
  proof (cases "peek tokens index")
    case None
    with "1.prems" show ?thesis by (subst (asm) import_loop.simps) simp
  next
    case (Some token)
    show ?thesis
    proof (cases "fst token = ''DOT''")
      case False
      with Some "1.prems" show ?thesis by (subst (asm) import_loop.simps) simp
    next
      case True
      from "1.prems" Some True obtain t1 i1 t2 i2 where
        c1: "consume tokens index ''DOT'' = Inr (t1, i1)" and
        c2: "consume tokens i1 ''IDENTIFIER'' = Inr (t2, i2)" and
        r: "import_loop tokens i2 (m @ ''.'' @ snd t2) = Inr (name, i)"
        by (subst (asm) import_loop.simps) (auto split: sum.splits)
      from "1.IH"[OF Some True c1 refl c2 refl r] have "i2 \<le> i" .
      with consume_Inr[OF c1] consume_Inr[OF c2] show ?thesis by simp
    qed
  qed
qed

declare import_loop.simps [simp del]

definition parse_import :: "token list \<Rightarrow> nat \<Rightarrow> error + (node \<times> nat)" where
  "parse_import tokens index =
     (case consume tokens index ''IMPORT'' of
        Inl e \<Rightarrow> Inl e
      | Inr (_, i1) \<Rightarrow>
          (case consume tokens i1 ''IDENTIFIER'' of
             Inl e \<Rightarrow> Inl e
           | Inr (name, i2) \<Rightarrow>
               (case import_loop tokens i2 (snd name) of
                  Inl e \<Rightarrow> Inl e
                | Inr (module_name, i3) \<Rightarrow>
                    (case consume tokens i3 ''SEMICOLON'' of
                       Inl e \<Rightarrow> Inl e
                     | Inr (_, i4) \<Rightarrow> Inr (Node ''IMPORT'' [] (StrValue module_name), i4)))))"

text \<open>\<open>parse_folder\<close> returns nothing; only the index moves.\<close>

definition parse_folder :: "token list \<Rightarrow> nat \<Rightarrow> error + nat" where
  "parse_folder tokens index =
     (case consume tokens index ''FOLDER'' of Inl e \<Rightarrow> Inl e | Inr (_, i1) \<Rightarrow> Inr i1)"

definition parse_class :: "token list \<Rightarrow> nat \<Rightarrow> error + (node \<times> nat)" where
  "parse_class tokens index =
     (case consume tokens index ''CLASS'' of
        Inl e \<Rightarrow> Inl e
      | Inr (_, i1) \<Rightarrow>
          (case consume tokens i1 ''IDENTIFIER'' of
             Inl e \<Rightarrow> Inl e
           | Inr (name, i2) \<Rightarrow> Inr (Node ''CLASS'' [] (StrValue (snd name)), i2)))"

definition parse_value :: "token list \<Rightarrow> nat \<Rightarrow> error + (pyvalue \<times> nat)" where
  "parse_value tokens index =
     (case peek tokens index of
        None \<Rightarrow> Inl TypeErrorNotSubscriptable
      | Some token \<Rightarrow>
          if fst token = ''STRING'' then
            (case consume tokens index ''STRING'' of
               Inl e \<Rightarrow> Inl e
             | Inr (t, i1) \<Rightarrow> Inr (VStr (snd t), i1))
          else if fst token = ''BOOLEAN'' then Inr (VBool (snd token = ''true''), index)
          else if fst token = ''IDENTIFIER'' then
            (case consume tokens index ''IDENTIFIER'' of
               Inl e \<Rightarrow> Inl e
             | Inr (t, i1) \<Rightarrow> Inr (VStr (snd t), i1))
          else Inl ParserUnexpectedValue)"

text \<open>
  The part of \<open>parse_variable\<close> after the optional arrow: \<open>consume('EQUALS')\<close>,
  \<open>parse_value()\<close> and the node.
\<close>

definition variable_rest ::
  "token list \<Rightarrow> nat \<Rightarrow> string \<Rightarrow> string option \<Rightarrow> error + (node \<times> nat)" where
  "variable_rest tokens index name arrow =
     (case consume tokens index ''EQUALS'' of
        Inl e \<Rightarrow> Inl e
      | Inr (_, i1) \<Rightarrow>
          (case parse_value tokens i1 of
             Inl e \<Rightarrow> Inl e
           | Inr (val, i2) \<Rightarrow> Inr (Node ''VARIABLE'' [] (VarValue name arrow val), i2)))"

definition parse_variable :: "token list \<Rightarrow> nat \<Rightarrow> error + (node \<times> nat)" where
  "parse_variable tokens index =
     (case consume tokens index ''VARIABLE'' of
        Inl e \<Rightarrow> Inl e
      | Inr (_, i1) \<Rightarrow>
          (case consume tokens i1 ''IDENTIFIER'' of
             Inl e \<Rightarrow> Inl e
           | Inr (name, i2) \<Rightarrow>
               (case peek tokens i2 of
                  None \<Rightarrow> Inl TypeErrorNotSubscriptable
                | Some token \<Rightarrow>
                    if fst token = ''ARROW'' then
                      (case consume tokens i2 ''ARROW'' of
                         Inl e \<Rightarrow> Inl e
                       | Inr (_, i3) \<Rightarrow>
                           (case consume tokens i3 ''IDENTIFIER'' of
                              Inl e \<Rightarrow> Inl e
                            | Inr (arrow, i4) \<Rightarrow>
                                variable_rest tokens i4 (snd name) (Some (snd arrow))))
                    else variable_rest tokens i2 (snd name) None)))"

definition parse_function :: "token list \<Rightarrow> nat \<Rightarrow> error + (node \<times> nat)" where
  "parse_function tokens index =
     (case consume tokens index ''FUNCTION'' of
        Inl e \<Rightarrow> Inl e
      | Inr (_, i1) \<Rightarrow>
          (case consume tokens i1 ''IDENTIFIER'' of
             Inl e \<Rightarrow> Inl e
           | Inr (name, i2) \<Rightarrow> Inr (Node ''FUNCTION'' [] (StrValue (snd name)), i2)))"

definition parse_identifier :: "token list \<Rightarrow> nat \<Rightarrow> error + (node \<times> nat)" where
  "parse_identifier tokens index =
     (case consume tokens index ''IDENTIFIER'' of
        Inl e \<Rightarrow> Inl e
      | Inr (token, i1) \<Rightarrow> Inr (Node ''IDENTIFIER'' [] (StrValue (snd token)), i1))"

definition parse_string :: "token list \<Rightarrow> nat \<Rightarrow> error + (node \<times> nat)" where
  "parse_string tokens index =
     (case consume tokens index ''STRING'' of
        Inl e \<Rightarrow> Inl e
      | Inr (token, i1) \<Rightarrow> Inr (Node ''STRING'' [] (StrValue (snd token)), i1))"

definition parse_expression :: "token list \<Rightarrow> nat \<Rightarrow> error + (node \<times> nat)" where
  "parse_expression tokens index =
     (case peek tokens index of
        None \<Rightarrow> Inl TypeErrorNotSubscriptable
      | Some token \<Rightarrow>
          if fst token = ''IDENTIFIER'' then parse_identifier tokens index
          else if fst token = ''STRING'' then parse_string tokens index
          else Inl (ParserUnexpected token))"

lemma parse_expression_Inr:
  "parse_expression tokens index = Inr (n, i) \<Longrightarrow> i = Suc index \<and> index < length tokens"
  by (auto simp: parse_expression_def parse_identifier_def parse_string_def
        split: option.splits if_splits sum.splits dest!: consume_Inr)

text \<open>The \<open>while peek()[0] == 'SEMICOLON'\<close> loop of \<open>parse_function_call\<close>.\<close>

function arguments_loop ::
  "token list \<Rightarrow> nat \<Rightarrow> node list \<Rightarrow> error + (node list \<times> nat)" where
  "arguments_loop tokens index arguments =
     (case peek tokens index of
        None \<Rightarrow> Inl TypeErrorNotSubscriptable
      | Some token \<Rightarrow>
          if fst token = ''SEMICOLON'' then
            (case consume tokens index ''SEMICOLON'' of
               Inl e \<Rightarrow> Inl e
             | Inr (_, i1) \<Rightarrow>
                 (case parse_expression tokens i1 of
                    Inl e \<Rightarrow> Inl e
                  | Inr (argument, i2) \<Rightarrow> arguments_loop tokens i2 (arguments @ [argument])))
          else Inr (arguments, index))"
  by pat_completeness auto
termination
  apply (relation "measure (\<lambda>(tokens, index, arguments). length tokens - index)")
   apply simp
  apply (auto dest!: consume_Inr parse_expression_Inr)
  done

declare arguments_loop.simps [simp del]

definition parse_function_call :: "token list \<Rightarrow> nat \<Rightarrow> error + (node \<times> nat)" where
  "parse_function_call tokens index =
     (case consume tokens index ''IDENTIFIER'' of
        Inl e \<Rightarrow> Inl e
      | Inr (identifier, i1) \<Rightarrow>
          (case consume tokens i1 ''LPAREN'' of
             Inl e \<Rightarrow> Inl e
           | Inr (_, i2) \<Rightarrow>
               (case (case peek tokens i2 of
                        None \<Rightarrow> Inl TypeErrorNotSubscriptable
                      | Some token \<Rightarrow>
                          if fst token \<noteq> ''RPAREN'' then
                            (case parse_expression tokens i2 of
                               Inl e \<Rightarrow> Inl e
                             | Inr (argument, i3) \<Rightarrow> arguments_loop tokens i3 [argument])
                          else Inr ([], i2)) of
                  Inl e \<Rightarrow> Inl e
                | Inr (arguments, i4) \<Rightarrow>
                    (case consume tokens i4 ''RPAREN'' of
                       Inl e \<Rightarrow> Inl e
                     | Inr (_, i5) \<Rightarrow>
                         Inr (Node ''FUNCTION_CALL''
                                ([Node ''IDENTIFIER'' [] (StrValue (snd identifier))] @ arguments)
                                NoValue, i5)))))"

definition parse_assignment :: "token list \<Rightarrow> nat \<Rightarrow> error + (node \<times> nat)" where
  "parse_assignment tokens index =
     (case parse_variable tokens index of
        Inl e \<Rightarrow> Inl e
      | Inr (variable, i1) \<Rightarrow>
          (case consume tokens i1 ''SEMICOLON'' of
             Inl e \<Rightarrow> Inl e
           | Inr (_, i2) \<Rightarrow> Inr (Node ''ASSIGNMENT'' [variable] NoValue, i2)))"

definition parse_yeet :: "token list \<Rightarrow> nat \<Rightarrow> error + (node \<times> nat)" where
  "parse_yeet tokens index =
     (case consume tokens index ''YEET'' of
        Inl e \<Rightarrow> Inl e
      | Inr (_, i1) \<Rightarrow>
          (case consume tokens i1 ''STRING'' of
             Inl e \<Rightarrow> Inl e
           | Inr (error, i2) \<Rightarrow>
               (case consume tokens i2 ''SEMICOLON'' of
                  Inl e \<Rightarrow> Inl e
                | Inr (_, i3) \<Rightarrow> Inr (Node ''YEET'' [] (StrValue (snd error)), i3))))"


lemma parse_yeet_index: "parse_yeet tokens index = Inr (n, i) \<Longrightarrow> index < i"
  by (auto simp: parse_yeet_def split: sum.splits dest!: consume_Inr)

lemma parse_import_index: "parse_import tokens index = Inr (n, i) \<Longrightarrow> index < i"
  by (auto simp: parse_import_def split: sum.splits dest!: consume_Inr import_loop_index)

lemma peek_Some: "peek tokens index = Some token \<Longrightarrow> index < length tokens"
  by (simp add: peek_def split: if_splits)

definition body_continues :: "token list \<Rightarrow> nat \<Rightarrow> bool" where
  \<comment> \<open>\<^verbatim>\<open>peek() and peek()[0] != 'RBRACE'\<close>\<close>
  "body_continues tokens index =
     (case peek tokens index of None \<Rightarrow> False | Some token \<Rightarrow> fst token \<noteq> ''RBRACE'')"

function parse_if :: "token list \<Rightarrow> nat \<Rightarrow> error + (node \<times> nat)"
  and parse_body :: "token list \<Rightarrow> nat \<Rightarrow> error + (node \<times> nat)"
  and body_loop :: "token list \<Rightarrow> nat \<Rightarrow> node list \<Rightarrow> error + (node \<times> nat)"
  and parse_statement :: "token list \<Rightarrow> nat \<Rightarrow> error + (node \<times> nat)"
where
  "parse_if tokens index =
     (case consume tokens index ''IF'' of
        Inl e \<Rightarrow> Inl e
      | Inr (_, i1) \<Rightarrow>
          (case parse_expression tokens i1 of
             Inl e \<Rightarrow> Inl e
           | Inr (condition, i2) \<Rightarrow>
               (case parse_body tokens i2 of
                  Inl e \<Rightarrow> Inl e
                | Inr (body, i3) \<Rightarrow> Inr (Node ''IF'' [condition, body] NoValue, i3))))"
| "parse_body tokens index =
     (case consume tokens index ''LBRACE'' of
        Inl e \<Rightarrow> Inl e
      | Inr (_, i1) \<Rightarrow> body_loop tokens i1 [])"
| "body_loop tokens index statements =
     (if body_continues tokens index then
        (case parse_statement tokens index of
           Inl e \<Rightarrow> Inl e
         | Inr (statement, i1) \<Rightarrow> body_loop tokens i1 (statements @ [statement]))
      else
        (case consume tokens index ''RBRACE'' of
           Inl e \<Rightarrow> Inl e
         | Inr (_, i1) \<Rightarrow> Inr (Node ''BODY'' statements NoValue, i1)))"
| "parse_statement tokens index =
     (case peek tokens index of
        None \<Rightarrow> Inl TypeErrorNotSubscriptable
      | Some token \<Rightarrow>
          if fst token = ''IF'' then parse_if tokens index
          else if fst token = ''IDENTIFIER'' then
            (case peek_args tokens index [1] of
               Inl e \<Rightarrow> Inl e
             | Inr next_token \<Rightarrow>
                 if (case next_token of None \<Rightarrow> False | Some t \<Rightarrow> fst t = ''LPAREN'')
                 then parse_function_call tokens index
                 else parse_assignment tokens index)
          else if fst token = ''YEET'' then parse_yeet tokens index
          else if fst token = ''IMPORT'' then parse_import tokens index
          else Inl (ParserUnexpected token))"
  by pat_completeness auto

termination
proof -
  have partial_index:
    "parse_if_parse_body_body_loop_parse_statement_dom (Inl (Inl (tokens, index))) \<Longrightarrow>
       parse_if tokens index = Inr (n, i) \<Longrightarrow> index < i"
    "parse_if_parse_body_body_loop_parse_statement_dom (Inl (Inr (tokens, index))) \<Longrightarrow>
       parse_body tokens index = Inr (n, i) \<Longrightarrow> index < i"
    "parse_if_parse_body_body_loop_parse_statement_dom (Inr (Inl (tokens, index, statements))) \<Longrightarrow>
       body_loop tokens index statements = Inr (n, i) \<Longrightarrow> index < i"
    "parse_if_parse_body_body_loop_parse_statement_dom (Inr (Inr (tokens, index))) \<Longrightarrow>
       parse_statement tokens index = Inr (n, i) \<Longrightarrow> index < i"
    for tokens index statements n i
  proof (induction tokens index and tokens index and tokens index statements and tokens index
      arbitrary: n i and n i and n i and n i
      rule: parse_if_parse_body_body_loop_parse_statement.pinduct)
    case (1 tokens index)
    from "1.prems" "1.hyps" obtain t1 i1 c i2 where
      c1: "consume tokens index ''IF'' = Inr (t1, i1)" and
      c2: "parse_expression tokens i1 = Inr (c, i2)"
      by (auto simp: parse_if.psimps split: sum.splits)
    with "1.prems" "1.hyps" obtain b where
      c3: "parse_body tokens i2 = Inr (b, i)"
      by (auto simp: parse_if.psimps split: sum.splits)
    from "1.IH"[OF c1 refl c2 refl c3] consume_Inr[OF c1] parse_expression_Inr[OF c2]
    show ?case by simp
  next
    case (2 tokens index)
    from "2.prems" "2.hyps" obtain t1 i1 where
      c1: "consume tokens index ''LBRACE'' = Inr (t1, i1)" and
      c2: "body_loop tokens i1 [] = Inr (n, i)"
      by (auto simp: parse_body.psimps split: sum.splits)
    from "2.IH"[OF c1 refl c2] consume_Inr[OF c1] show ?case by simp
  next
    case (3 tokens index statements)
    show ?case
    proof (cases "body_continues tokens index")
      case True
      with "3.prems" "3.hyps" obtain s i1 where
        c1: "parse_statement tokens index = Inr (s, i1)" and
        c2: "body_loop tokens i1 (statements @ [s]) = Inr (n, i)"
        by (auto simp: body_loop.psimps split: sum.splits)
      from "3.IH"(1)[OF True c1] "3.IH"(2)[OF True c1 refl c2] show ?thesis by simp
    next
      case False
      with "3.prems" "3.hyps" show ?thesis
        by (auto simp: body_loop.psimps split: sum.splits dest!: consume_Inr)
    qed
  next
    case (4 tokens index)
    from "4.prems" "4.hyps" obtain token where tk: "peek tokens index = Some token"
      by (auto simp: parse_statement.psimps split: option.splits)
    show ?case
    proof (cases "fst token = ''IF''")
      case True
      with "4.prems" "4.hyps" tk have "parse_if tokens index = Inr (n, i)"
        by (simp add: parse_statement.psimps)
      from "4.IH"[OF tk True this] show ?thesis .
    next
      case False
      with "4.prems" "4.hyps" tk show ?thesis
        by (auto simp: parse_statement.psimps peek_args_def split: if_splits
              dest: parse_yeet_index parse_import_index)
    qed
  qed
  show ?thesis
  proof (relation "measure (\<lambda>x. case x of
            Inl (Inl (tokens, index)) \<Rightarrow> 4 * (length tokens - index)
          | Inl (Inr (tokens, index)) \<Rightarrow> 4 * (length tokens - index)
          | Inr (Inl (tokens, index, statements)) \<Rightarrow> 4 * (length tokens - index) + 2
          | Inr (Inr (tokens, index)) \<Rightarrow> 4 * (length tokens - index) + 1)",
      goal_cases)
    case 1
    show ?case by simp
  next
    case (2 tokens index x y xa xb yb)
    then show ?case by (auto dest!: consume_Inr parse_expression_Inr)
  next
    case (3 tokens index x y xa)
    then show ?case by (auto dest!: consume_Inr)
  next
    case (4 tokens index statements)
    then show ?case by simp
  next
    case (5 tokens index statements x xa y)
    from 5(1) have "index < length tokens"
      by (auto simp: body_continues_def split: option.splits dest: peek_Some)
    moreover from partial_index(4)[OF 5(4)] 5(2,3) have "index < y" by auto
    ultimately show ?case by (simp add: diff_less_mono2)
  next
    case (6 tokens index x2)
    then show ?case by simp
  qed
qed

declare parse_if.simps [simp del] parse_body.simps [simp del] body_loop.simps [simp del]
  parse_statement.simps [simp del]

lemma parse_index:
  "parse_if tokens index = Inr (n, i) \<Longrightarrow> index < i"
  "parse_body tokens index = Inr (n, i) \<Longrightarrow> index < i"
  "body_loop tokens index statements = Inr (n, i) \<Longrightarrow> index < i"
  "parse_statement tokens index = Inr (n, i) \<Longrightarrow> index < i"
proof (induction tokens index and tokens index and tokens index statements and tokens index
    arbitrary: n i and n i and n i and n i
    rule: parse_if_parse_body_body_loop_parse_statement.induct)
  case (1 tokens index)
  from "1.prems" obtain t1 i1 c i2 where
    c1: "consume tokens index ''IF'' = Inr (t1, i1)" and
    c2: "parse_expression tokens i1 = Inr (c, i2)"
    by (subst (asm) parse_if.simps) (auto split: sum.splits)
  with "1.prems" obtain b where
    c3: "parse_body tokens i2 = Inr (b, i)"
    by (subst (asm) parse_if.simps) (auto split: sum.splits)
  from "1.IH"[OF c1 refl c2 refl c3] consume_Inr[OF c1] parse_expression_Inr[OF c2]
  show ?case by simp
next
  case (2 tokens index)
  from "2.prems" obtain t1 i1 where
    c1: "consume tokens index ''LBRACE'' = Inr (t1, i1)" and
    c2: "body_loop tokens i1 [] = Inr (n, i)"
    by (subst (asm) parse_body.simps) (auto split: sum.splits)
  from "2.IH"[OF c1 refl c2] consume_Inr[OF c1] show ?case by simp
next
  case (3 tokens index statements)
  show ?case
  proof (cases "body_continues tokens index")
    case True
    with "3.prems" obtain s i1 where
      c1: "parse_statement tokens index = Inr (s, i1)" and
      c2: "body_loop tokens i1 (statements @ [s]) = Inr (n, i)"
      by (subst (asm) body_loop.simps) (auto split: sum.splits)
    from "3.IH"(1)[OF True c1] "3.IH"(2)[OF True c1 refl c2] show ?thesis by simp
  next
    case False
    with "3.prems" show ?thesis
      by (subst (asm) body_loop.simps) (auto split: sum.splits dest!: consume_Inr)
  qed
next
  case (4 tokens index)
  from "4.prems" obtain token where tk: "peek tokens index = Some token"
    by (subst (asm) parse_statement.simps) (auto split: option.splits)
  show ?case
  proof (cases "fst token = ''IF''")
    case True
    with "4.prems" tk have "parse_if tokens index = Inr (n, i)"
      by (subst (asm) parse_statement.simps) simp
    from "4.IH"[OF tk True this] show ?thesis .
  next
    case False
    with "4.prems" tk show ?thesis
      by (subst (asm) parse_statement.simps)
         (auto simp: peek_args_def split: if_splits dest: parse_yeet_index parse_import_index)
  qed
qed


lemma parse_class_index: "parse_class tokens index = Inr (n, i) \<Longrightarrow> index < i"
  by (auto simp: parse_class_def split: sum.splits dest!: consume_Inr)

lemma parse_function_index: "parse_function tokens index = Inr (n, i) \<Longrightarrow> index < i"
  by (auto simp: parse_function_def split: sum.splits dest!: consume_Inr)

lemma parse_folder_index: "parse_folder tokens index = Inr i \<Longrightarrow> index < i"
  by (auto simp: parse_folder_def split: sum.splits dest!: consume_Inr)

lemma parse_value_index: "parse_value tokens index = Inr (v, i) \<Longrightarrow> index \<le> i"
  by (auto simp: parse_value_def split: option.splits if_splits sum.splits dest!: consume_Inr)

lemma variable_rest_index: "variable_rest tokens index name arrow = Inr (n, i) \<Longrightarrow> index < i"
  by (auto simp: variable_rest_def split: sum.splits dest!: consume_Inr parse_value_index)

lemma parse_variable_index: "parse_variable tokens index = Inr (n, i) \<Longrightarrow> index < i"
  by (auto simp: parse_variable_def split: sum.splits option.splits if_splits
        dest!: consume_Inr variable_rest_index)


text \<open>The \<open>while peek()\<close> loop at the end of \<open>parse\<close>.\<close>

function parse_loop :: "token list \<Rightarrow> nat \<Rightarrow> node list \<Rightarrow> error + node list" where
  "parse_loop tokens index ast =
     (case peek tokens index of
        None \<Rightarrow> Inr ast
      | Some token \<Rightarrow>
          if fst token = ''FOLDER'' then
            (case parse_folder tokens index of
               Inl e \<Rightarrow> Inl e
             | Inr i1 \<Rightarrow> parse_loop tokens i1 ast)
          else if fst token = ''CLASS'' then
            (case parse_class tokens index of
               Inl e \<Rightarrow> Inl e
             | Inr (n, i1) \<Rightarrow> parse_loop tokens i1 (ast @ [n]))
          else if fst token = ''VARIABLE'' then
            (case parse_variable tokens index of
               Inl e \<Rightarrow> Inl e
             | Inr (n, i1) \<Rightarrow> parse_loop tokens i1 (ast @ [n]))
          else if fst token = ''FUNCTION'' then
            (case parse_function tokens index of
               Inl e \<Rightarrow> Inl e
             | Inr (n, i1) \<Rightarrow> parse_loop tokens i1 (ast @ [n]))
          else if fst token = ''IF'' then
            (case parse_if tokens index of
               Inl e \<Rightarrow> Inl e
             | Inr (n, i1) \<Rightarrow> parse_loop tokens i1 (ast @ [n]))
          else if fst token = ''COMMENT'' then parse_loop tokens (index + 1) ast
          else if fst token = ''IMPORT'' then
            (case parse_import tokens index of
               Inl e \<Rightarrow> Inl e
             | Inr (n, i1) \<Rightarrow> parse_loop tokens i1 (ast @ [n]))
          else Inl (ParserUnexpected token))"
  by pat_completeness auto
termination
proof (relation "measure (\<lambda>(tokens, index, ast). length tokens - index)", goal_cases)
  case 1
  show ?case by simp
next
  case (2 tokens index ast token i1)
  from peek_Some[OF 2(1)] parse_folder_index[OF 2(3)] show ?case
    by (simp add: diff_less_mono2)
next
  case (3 tokens index ast token x n i1)
  from peek_Some[OF 3(1)] parse_class_index[of tokens index n i1] 3 show ?case
    by (simp add: diff_less_mono2)
next
  case (4 tokens index ast token x n i1)
  from peek_Some[OF 4(1)] parse_variable_index[of tokens index n i1] 4 show ?case
    by (simp add: diff_less_mono2)
next
  case (5 tokens index ast token x n i1)
  from peek_Some[OF 5(1)] parse_function_index[of tokens index n i1] 5 show ?case
    by (simp add: diff_less_mono2)
next
  case (6 tokens index ast token x n i1)
  from peek_Some[OF 6(1)] parse_index(1)[of tokens index n i1] 6 show ?case
    by (simp add: diff_less_mono2)
next
  case (7 tokens index ast token)
  from peek_Some[OF 7(1)] show ?case by (simp add: diff_less_mono2)
next
  case (8 tokens index ast token x n i1)
  from peek_Some[OF 8(1)] parse_import_index[of tokens index n i1] 8 show ?case
    by (simp add: diff_less_mono2)
qed

declare parse_loop.simps [simp del]

definition parse :: "token list \<Rightarrow> error + node list" where
  "parse tokens = parse_loop tokens 0 []"

text \<open>\<open>compile_file\<close>, lines 221 and 222: \<open>tokens = lexer(input_text); ast = parse(tokens)\<close>.\<close>

definition tokenize_and_parse :: "string \<Rightarrow> error + node list" where
  "tokenize_and_parse input_text =
     (case lexer input_text of Inl e \<Rightarrow> Inl e | Inr tokens \<Rightarrow> parse tokens)"

lemma upper_KEYWORDS:
  "val \<in> KEYWORDS \<Longrightarrow>
   upper val \<in> {''IF'', ''NOT'', ''BUT'', ''OTHERWISE'', ''YEET'', ''IMPORT''}"
proof -
  have u: "upper ''if'' = ''IF''" "upper ''not'' = ''NOT''" "upper ''but'' = ''BUT''"
    "upper ''otherwise'' = ''OTHERWISE''" "upper ''yeet'' = ''YEET''"
    "upper ''import'' = ''IMPORT''"
    by code_simp+
  assume "val \<in> KEYWORDS"
  then show ?thesis unfolding KEYWORDS_def using u by auto
qed

lemma classify_not_EQUALS:
  assumes "(k, r) \<in> set TOKEN_TYPES"
  shows "classify k val \<noteq> ''EQUALS''"
proof (cases "k = ''IDENTIFIER'' \<and> val \<in> KEYWORDS")
  case True
  with upper_KEYWORDS[of val] show ?thesis by (auto simp: classify_def)
next
  case False
  from assms have "k \<noteq> ''EQUALS''" by (auto simp: TOKEN_TYPES_def)
  with False show ?thesis by (auto simp: classify_def)
qed

lemma lexer_loop_no_EQUALS:
  "lexer_loop input_text position tokens = Inr out \<Longrightarrow>
   \<forall>t \<in> set tokens. fst t \<noteq> ''EQUALS'' \<Longrightarrow> \<forall>t \<in> set out. fst t \<noteq> ''EQUALS''"
proof (induction input_text position tokens rule: lexer_loop.induct)
  case (1 input_text position tokens)
  show ?case
  proof (cases "position < length input_text")
    case False
    with "1.prems" show ?thesis by (subst (asm) lexer_loop.simps) simp
  next
    case True
    show ?thesis
    proof (cases "first_match TOKEN_TYPES input_text position")
      case None
      with True "1.prems"(1) show ?thesis by (subst (asm) lexer_loop.simps) simp
    next
      case (Some ke)
      obtain k e where ke: "ke = (k, e)" by (cases ke)
      define toks where "toks =
        (if classify k (group0 input_text position e) \<noteq> ''COMMENT''
         then tokens @ [(classify k (group0 input_text position e), group0 input_text position e)]
         else tokens)"
      from "1.prems"(1) True Some ke
      have run: "lexer_loop input_text e toks = Inr out"
        unfolding toks_def by (subst (asm) lexer_loop.simps) (auto simp: Let_def split: if_splits)
      from first_match_rule[of TOKEN_TYPES input_text position k e] Some ke
      obtain r where "(k, r) \<in> set TOKEN_TYPES" by auto
      from classify_not_EQUALS[OF this] "1.prems"(2)
      have inv: "\<forall>t \<in> set toks. fst t \<noteq> ''EQUALS''"
        by (auto simp: toks_def)
      from "1.IH"[OF True Some ke[symmetric] refl refl] run inv
      show ?thesis unfolding toks_def by blast
    qed
  qed
qed

lemma consume_EQUALS:
  "\<forall>t \<in> set tokens. fst t \<noteq> ''EQUALS'' \<Longrightarrow>
   consume tokens index ''EQUALS'' = Inl (ParserExpected ''EQUALS'' (peek tokens index))"
  by (auto simp: consume_def peek_def)

lemma variable_rest_needs_EQUALS:
  "\<forall>t \<in> set tokens. fst t \<noteq> ''EQUALS'' \<Longrightarrow>
   variable_rest tokens index name arrow = Inl (ParserExpected ''EQUALS'' (peek tokens index))"
  by (simp add: variable_rest_def consume_EQUALS)

lemma parse_variable_needs_EQUALS:
  "\<forall>t \<in> set tokens. fst t \<noteq> ''EQUALS'' \<Longrightarrow> \<exists>e. parse_variable tokens index = Inl e"
  by (simp add: parse_variable_def variable_rest_needs_EQUALS
        split: sum.splits option.splits prod.splits)

lemma parse_assignment_needs_EQUALS:
  "\<forall>t \<in> set tokens. fst t \<noteq> ''EQUALS'' \<Longrightarrow> \<exists>e. parse_assignment tokens index = Inl e"
  using parse_variable_needs_EQUALS[of tokens index]
  by (auto simp: parse_assignment_def)

lemma parse_statement_IDENTIFIER:
  "peek tokens index = Some token \<Longrightarrow> fst token = ''IDENTIFIER'' \<Longrightarrow>
   parse_statement tokens index = Inl TypeErrorPositionalArguments"
  by (subst parse_statement.simps) (simp add: peek_args_def)

lemma body_ends_with_RBRACE:
  "parse_if tokens index = Inr (n, i) \<Longrightarrow>
     0 < i \<and> i \<le> length tokens \<and> fst (tokens ! (i - 1)) = ''RBRACE''"
  "parse_body tokens index = Inr (n, i) \<Longrightarrow>
     0 < i \<and> i \<le> length tokens \<and> fst (tokens ! (i - 1)) = ''RBRACE''"
  "body_loop tokens index statements = Inr (n, i) \<Longrightarrow>
     0 < i \<and> i \<le> length tokens \<and> fst (tokens ! (i - 1)) = ''RBRACE''"
  "parse_statement tokens index = Inr (n, i) \<Longrightarrow> True"
proof (induction tokens index and tokens index and tokens index statements and tokens index
    arbitrary: n i and n i and n i and n i
    rule: parse_if_parse_body_body_loop_parse_statement.induct)
  case (1 tokens index)
  from "1.prems" obtain t1 i1 c i2 where
    c1: "consume tokens index ''IF'' = Inr (t1, i1)" and
    c2: "parse_expression tokens i1 = Inr (c, i2)"
    by (subst (asm) parse_if.simps) (auto split: sum.splits)
  with "1.prems" obtain b where
    c3: "parse_body tokens i2 = Inr (b, i)"
    by (subst (asm) parse_if.simps) (auto split: sum.splits)
  from "1.IH"[OF c1 refl c2 refl c3] show ?case .
next
  case (2 tokens index)
  from "2.prems" obtain t1 i1 where
    c1: "consume tokens index ''LBRACE'' = Inr (t1, i1)" and
    c2: "body_loop tokens i1 [] = Inr (n, i)"
    by (subst (asm) parse_body.simps) (auto split: sum.splits)
  from "2.IH"[OF c1 refl c2] show ?case .
next
  case (3 tokens index statements)
  show ?case
  proof (cases "body_continues tokens index")
    case True
    with "3.prems" obtain s i1 where
      c1: "parse_statement tokens index = Inr (s, i1)" and
      c2: "body_loop tokens i1 (statements @ [s]) = Inr (n, i)"
      by (subst (asm) body_loop.simps) (auto split: sum.splits)
    from "3.IH"(2)[OF True c1 refl c2] show ?thesis .
  next
    case False
    with "3.prems" show ?thesis
      by (subst (asm) body_loop.simps) (auto split: sum.splits dest!: consume_Inr)
  qed
next
  case (4 tokens index)
  show ?case by simp
qed

lemma body_loop_exhausted:
  "length tokens \<le> index \<Longrightarrow>
   body_loop tokens index statements = Inl (ParserExpected ''RBRACE'' None)"
  by (subst body_loop.simps) (simp add: body_continues_def peek_def consume_def)

lemma parse_body_without_RBRACE:
  assumes "\<forall>t \<in> set tokens. fst t \<noteq> ''RBRACE''"
  shows "\<exists>e. parse_body tokens index = Inl e"
proof (cases "parse_body tokens index")
  case (Inl e)
  then show ?thesis by simp
next
  case (Inr r)
  obtain n i where "r = (n, i)" by (cases r)
  with Inr body_ends_with_RBRACE(2)[of tokens index n i]
  have "0 < i" "i \<le> length tokens" "fst (tokens ! (i - 1)) = ''RBRACE''" by simp_all
  then have "tokens ! (i - 1) \<in> set tokens" by simp
  with assms \<open>fst (tokens ! (i - 1)) = ''RBRACE''\<close> show ?thesis by blast
qed

lemma parse_function_call_shape:
  "parse_function_call tokens index = Inr (n, i) \<Longrightarrow>
   \<exists>arguments.
     n = Node ''FUNCTION_CALL''
           (Node ''IDENTIFIER'' [] (StrValue (snd (tokens ! index))) # arguments) NoValue
     \<and> fst (tokens ! index) = ''IDENTIFIER''"
  by (auto simp: parse_function_call_def split: sum.splits dest!: consume_Inr)

lemma first_match_complete:
  "i < length rules \<Longrightarrow> re_match (snd (rules ! i)) input_text position = Some e \<Longrightarrow>
   \<forall>j<i. re_match (snd (rules ! j)) input_text position = None \<Longrightarrow>
   first_match rules input_text position = Some (fst (rules ! i), e)"
proof (induction rules arbitrary: i)
  case Nil
  then show ?case by simp
next
  case (Cons kr rules)
  obtain k0 r0 where kr: "kr = (k0, r0)" by (cases kr)
  show ?case
  proof (cases i)
    case 0
    with Cons.prems kr show ?thesis by simp
  next
    case (Suc i')
    from Cons.prems(3) Suc have "re_match (snd ((kr # rules) ! 0)) input_text position = None"
      by blast
    with kr have n0: "re_match r0 input_text position = None" by simp
    have "\<forall>j<i'. re_match (snd (rules ! j)) input_text position = None"
    proof (intro allI impI)
      fix j assume "j < i'"
      with Suc have "Suc j < i" by simp
      with Cons.prems(3) have "re_match (snd ((kr # rules) ! Suc j)) input_text position = None"
        by blast
      then show "re_match (snd (rules ! j)) input_text position = None" by simp
    qed
    from Cons.prems(1,2) Suc have "i' < length rules"
      and "re_match (snd (rules ! i')) input_text position = Some e" by simp_all
    from Cons.IH[OF this \<open>\<forall>j<i'. re_match (snd (rules ! j)) input_text position = None\<close>]
    have "first_match rules input_text position = Some (fst (rules ! i'), e)" .
    with kr n0 Suc show ?thesis by simp
  qed
qed

lemma first_match_None_iff:
  "first_match rules input_text position = None
   \<longleftrightarrow> (\<forall>j<length rules. re_match (snd (rules ! j)) input_text position = None)"
proof (induction rules)
  case Nil
  then show ?case by simp
next
  case (Cons kr rules)
  obtain k0 r0 where kr: "kr = (k0, r0)" by (cases kr)
  have "(\<forall>j<length (kr # rules). re_match (snd ((kr # rules) ! j)) input_text position = None)
        \<longleftrightarrow> (re_match r0 input_text position = None
             \<and> (\<forall>j<length rules. re_match (snd (rules ! j)) input_text position = None))"
    using kr by (auto simp: less_Suc_eq_0_disj)
  with Cons.IH kr show ?case by (auto split: option.splits)
qed

section \<open>Claims about the tokenizer\<close>

text \<open>
  C8. At every cursor position the tokenizer accepts the first rule of \<open>TOKEN_TYPES\<close>, in
  declaration order, whose pattern matches there: a rule is accepted exactly when it
  matches and every earlier rule fails to match, and no rule is accepted exactly when
  none matches. The lexer starts at position 0 with no tokens and goes on from the end
  of the accepted match with the token appended (or dropped, for a comment). It is not
  the longest match: on \<open>iftrue\<close> rule 5 (\<open>if\<close>, two characters) is accepted although
  rule 9 matches all six, so the text is an \<open>IF\<close> and a \<open>BOOLEAN\<close> token and not one
  identifier, and \<open>ifx\<close> fails at offset 2 after the \<open>if\<close>. The text \<open>importer\<close> is one
  \<open>IDENTIFIER\<close> token, and \<open>)\<close>, which only rule 13 matches, is an \<open>RPAREN\<close> token.
\<close>

theorem first_rule_in_declaration_order_wins:
  "(first_match TOKEN_TYPES input_text position = Some (k, e) \<longleftrightarrow>
      (\<exists>i<length TOKEN_TYPES. fst (TOKEN_TYPES ! i) = k
         \<and> re_match (snd (TOKEN_TYPES ! i)) input_text position = Some e
         \<and> (\<forall>j<i. re_match (snd (TOKEN_TYPES ! j)) input_text position = None)))
   \<and> (first_match TOKEN_TYPES input_text position = None \<longleftrightarrow>
        (\<forall>j<length TOKEN_TYPES. re_match (snd (TOKEN_TYPES ! j)) input_text position = None))
   \<and> lexer input_text = lexer_loop input_text 0 []
   \<and> (position < length input_text \<and> first_match TOKEN_TYPES input_text position = Some (k, e) \<longrightarrow>
        lexer_loop input_text position tokens
        = lexer_loop input_text e
            (if classify k (group0 input_text position e) \<noteq> ''COMMENT''
             then tokens @ [(classify k (group0 input_text position e),
                             group0 input_text position e)]
             else tokens))
   \<and> first_match TOKEN_TYPES ''ifx'' 0 = Some (''IF'', 2)
   \<and> re_match identifier_pattern ''ifx'' 0 = Some 3
   \<and> lexer ''ifx'' = Inl (LexerError 2)
   \<and> re_match identifier_pattern ''iftrue'' 0 = Some 6
   \<and> lexer ''iftrue'' = Inr [(''IF'', ''if''), (''BOOLEAN'', ''true'')]
   \<and> lexer ''importer'' = Inr [(''IDENTIFIER'', ''importer'')]
   \<and> lexer '')'' = Inr [(''RPAREN'', '')'')]"
proof -
  have iff1: "first_match TOKEN_TYPES input_text position = Some (k, e) \<longleftrightarrow>
      (\<exists>i<length TOKEN_TYPES. fst (TOKEN_TYPES ! i) = k
         \<and> re_match (snd (TOKEN_TYPES ! i)) input_text position = Some e
         \<and> (\<forall>j<i. re_match (snd (TOKEN_TYPES ! j)) input_text position = None))"
  proof
    assume "first_match TOKEN_TYPES input_text position = Some (k, e)"
    then show "\<exists>i<length TOKEN_TYPES. fst (TOKEN_TYPES ! i) = k
         \<and> re_match (snd (TOKEN_TYPES ! i)) input_text position = Some e
         \<and> (\<forall>j<i. re_match (snd (TOKEN_TYPES ! j)) input_text position = None)"
      by (rule first_match_first)
  next
    assume "\<exists>i<length TOKEN_TYPES. fst (TOKEN_TYPES ! i) = k
         \<and> re_match (snd (TOKEN_TYPES ! i)) input_text position = Some e
         \<and> (\<forall>j<i. re_match (snd (TOKEN_TYPES ! j)) input_text position = None)"
    then obtain i where i: "i < length TOKEN_TYPES" "fst (TOKEN_TYPES ! i) = k"
      "re_match (snd (TOKEN_TYPES ! i)) input_text position = Some e"
      "\<forall>j<i. re_match (snd (TOKEN_TYPES ! j)) input_text position = None" by blast
    from first_match_complete[OF i(1) i(3) i(4)] i(2)
    show "first_match TOKEN_TYPES input_text position = Some (k, e)" by simp
  qed
  have a: "first_match TOKEN_TYPES ''ifx'' 0 = Some (''IF'', 2)" by code_simp
  have b: "re_match identifier_pattern ''ifx'' 0 = Some 3" by code_simp
  have c: "lexer ''ifx'' = Inl (LexerError 2)" by code_simp
  have d: "re_match identifier_pattern ''iftrue'' 0 = Some 6" by code_simp
  have e: "lexer ''iftrue'' = Inr [(''IF'', ''if''), (''BOOLEAN'', ''true'')]" by code_simp
  have f: "lexer ''importer'' = Inr [(''IDENTIFIER'', ''importer'')]" by code_simp
  have g: "lexer '')'' = Inr [(''RPAREN'', '')'')]" by code_simp
  show ?thesis
  proof (intro conjI impI)
    assume "position < length input_text
            \<and> first_match TOKEN_TYPES input_text position = Some (k, e)"
    then show "lexer_loop input_text position tokens
        = lexer_loop input_text e
            (if classify k (group0 input_text position e) \<noteq> ''COMMENT''
             then tokens @ [(classify k (group0 input_text position e),
                             group0 input_text position e)]
             else tokens)"
      using lexer_loop_step[of position input_text k e tokens] by simp
  qed (fact iff1 first_match_None_iff lexer_def a b c d e f g)+
qed

theorem first_rule_in_declaration_order_wins_witness:
  "first_match TOKEN_TYPES ''importer'' 0 = Some (''IDENTIFIER'', 8)
   \<and> (\<exists>i<length TOKEN_TYPES. fst (TOKEN_TYPES ! i) = ''IDENTIFIER''
         \<and> re_match (snd (TOKEN_TYPES ! i)) ''importer'' 0 = Some 8)
   \<and> 0 < length ''importer''
   \<and> lexer_loop ''importer'' 0 [] = lexer_loop ''importer'' 8 [(''IDENTIFIER'', ''importer'')]
   \<and> first_match TOKEN_TYPES ''(@'' 1 = None
   \<and> re_match (snd (TOKEN_TYPES ! 12)) ''(@'' 1 = None"
proof -
  have fm: "first_match TOKEN_TYPES ''importer'' 0 = Some (''IDENTIFIER'', 8)" by code_simp
  have cl: "classify ''IDENTIFIER'' ''importer'' = ''IDENTIFIER''" by code_simp
  have g: "group0 ''importer'' 0 8 = ''importer''" by code_simp
  have l: "(0::nat) < length ''importer''" by simp
  have n: "first_match TOKEN_TYPES ''(@'' 1 = None" by code_simp
  have len: "(12::nat) < length TOKEN_TYPES" by (simp add: TOKEN_TYPES_def)
  note t = first_rule_in_declaration_order_wins
  from t[of "''importer''" 0 "''IDENTIFIER''" 8, THEN conjunct1, THEN iffD1, OF fm]
  have ex: "\<exists>i<length TOKEN_TYPES. fst (TOKEN_TYPES ! i) = ''IDENTIFIER''
         \<and> re_match (snd (TOKEN_TYPES ! i)) ''importer'' 0 = Some 8"
    by blast
  from t[of "''importer''" 0 "''IDENTIFIER''" 8 "[]",
         THEN conjunct2, THEN conjunct2, THEN conjunct2, THEN conjunct1, THEN mp, OF conjI[OF l fm]]
  have step: "lexer_loop ''importer'' 0 []
              = lexer_loop ''importer'' 8 [(''IDENTIFIER'', ''importer'')]"
    by (simp add: cl g)
  from t[of "''(@''" 1, THEN conjunct2, THEN conjunct1, THEN iffD1, OF n] len
  have none: "re_match (snd (TOKEN_TYPES ! 12)) ''(@'' 1 = None" by blast
  from fm ex l step n none show ?thesis by (intro conjI)
qed

text \<open>
  C7. If no rule matches at the cursor position, tokenization fails with the lexer error
  that carries this position; the lexer raises no other error, and every position it
  reports is one where no rule matches. No rule can start at the character \<open>@\<close>, so when
  the cursor stands on an \<open>@\<close> the reported offset is the index of that \<open>@\<close>.
\<close>

theorem lexer_error_carries_cursor_position:
  "(position < length input_text \<and> first_match TOKEN_TYPES input_text position = None \<longrightarrow>
      lexer_loop input_text position tokens = Inl (LexerError position))
   \<and> (position < length input_text \<and> input_text ! position = CHR ''@'' \<longrightarrow>
        lexer_loop input_text position tokens = Inl (LexerError position))
   \<and> (lexer input_text = Inl err \<longrightarrow>
        (\<exists>p<length input_text. err = LexerError p
           \<and> first_match TOKEN_TYPES input_text p = None))
   \<and> lexer ''(@'' = Inl (LexerError 1)"
proof -
  have a: "lexer_loop input_text position tokens = Inl (LexerError position)"
    if "position < length input_text" "input_text ! position = CHR ''@''"
  proof -
    from TOKEN_TYPES_not_at_sign that(2)
    have "\<forall>(k, r) \<in> set TOKEN_TYPES. \<not> may_start r (input_text ! position)" by simp
    from lexer_loop_no_match[OF that(1) first_match_none[OF this that(1)]] show ?thesis .
  qed
  have b: "\<exists>p<length input_text. err = LexerError p \<and> first_match TOKEN_TYPES input_text p = None"
    if "lexer input_text = Inl err"
    using lexer_loop_error_position[of input_text 0 "[]" err] that by (auto simp: lexer_def)
  have c: "lexer ''(@'' = Inl (LexerError 1)" by code_simp
  show ?thesis using lexer_loop_no_match[of position input_text tokens] a b c by blast
qed

theorem lexer_error_carries_cursor_position_witness:
  "1 < length ''(@'' \<and> first_match TOKEN_TYPES ''(@'' 1 = None \<and> ''(@'' ! 1 = CHR ''@''
   \<and> lexer_loop ''(@'' 1 [(''LPAREN'', ''('')] = Inl (LexerError 1)
   \<and> lexer ''(@'' = Inl (LexerError 1)
   \<and> (\<exists>p<length ''(@''. LexerError 1 = LexerError p \<and> first_match TOKEN_TYPES ''(@'' p = None)"
proof -
  have l: "(1::nat) < length ''(@''" by simp
  have n: "first_match TOKEN_TYPES ''(@'' 1 = None" by code_simp
  have c: "''(@'' ! 1 = CHR ''@''" by simp
  from lexer_error_carries_cursor_position[of 1 "''(@''" "[(''LPAREN'', ''('')]" "LexerError 1"] l n c
  show ?thesis by blast
qed

text \<open>
  C3, as stated, fails: a whitespace character inside a string literal is consumed by
  rule 10, which is not one of the composite rules 1 to 4 and 8, and the lexer goes on.
  The text below is the five characters \<open>"a b"\<close>, with a space at index 2.
\<close>

theorem whitespace_inside_string_is_consumed:
  \<open>is_space (''"a b"'' ! 2) \<and> lexer ''"a b"'' = Inr [(''STRING'', ''"a b"'')]\<close>
proof -
  have a: \<open>is_space (''"a b"'' ! 2)\<close> by code_simp
  have b: \<open>lexer ''"a b"'' = Inr [(''STRING'', ''"a b"'')]\<close> by code_simp
  from a b show ?thesis by simp
qed

text \<open>
  C3, amended. No rule of \<open>TOKEN_TYPES\<close> can start at a whitespace character and the
  lexer never skips input: whenever the scan cursor stands on a whitespace character
  (one that no earlier match has consumed, be it a composite rule, a string literal, a
  comment or \<open>but if\<close>), the lexer fails with the lexer error at that position. So
  \<open>if x\<close> fails at offset 2.
\<close>

theorem whitespace_at_cursor_is_lexer_error:
  "(position < length input_text \<and> is_space (input_text ! position) \<longrightarrow>
      lexer_loop input_text position tokens = Inl (LexerError position))
   \<and> lexer ''if x'' = Inl (LexerError 2)"
proof -
  have a: "lexer_loop input_text position tokens = Inl (LexerError position)"
    if "position < length input_text" "is_space (input_text ! position)"
    using lexer_loop_no_match[OF that(1) first_match_none[OF TOKEN_TYPES_not_space[OF that(2)] that(1)]] .
  have b: "lexer ''if x'' = Inl (LexerError 2)" by code_simp
  from a b show ?thesis by blast
qed

theorem whitespace_at_cursor_is_lexer_error_witness:
  "2 < length ''if x'' \<and> is_space (''if x'' ! 2)
   \<and> lexer_loop ''if x'' 2 [(''IF'', ''if'')] = Inl (LexerError 2)"
proof -
  have l: "(2::nat) < length ''if x''" by simp
  have w: "is_space (''if x'' ! 2)" by code_simp
  from whitespace_at_cursor_is_lexer_error[of 2 "''if x''" "[(''IF'', ''if'')]"] l w
  show ?thesis by blast
qed

text \<open>
  C5, as stated, fails: the input \<open>variable x = "a"; // note\<close> followed by a newline
  yields no token sequence. Rule 3 takes \<open>variable x = "a"\<close>, rule 16 the \<open>;\<close>, and at
  offset 17 stands a space.
\<close>

theorem comment_elision_input_is_lexer_error:
  \<open>lexer (''variable x = "a"; // note'' @ [CHR 0x0A]) = Inl (LexerError 17)\<close>
  by code_simp

text \<open>
  C5, amended. Comment matches are dropped before they are appended: no token of a
  lexer result has the kind \<open>COMMENT\<close>. With the comment directly after the \<open>;\<close> and at
  the end of the text, \<open>variable x = "a";// note\<close> yields the same two tokens as
  \<open>variable x = "a";\<close>. The input of the claim fails with the lexer error at offset 17,
  and so does the same input with the comment removed.
\<close>

theorem comments_never_reach_the_result:
  \<open>(lexer input_text = Inr tokens \<longrightarrow> (\<forall>t \<in> set tokens. fst t \<noteq> ''COMMENT''))
   \<and> lexer ''variable x = "a";// note'' = lexer ''variable x = "a";''
   \<and> lexer ''variable x = "a";''
       = Inr [(''VARIABLE'', ''variable x = "a"''), (''SEMICOLON'', '';'')]
   \<and> lexer (''variable x = "a"; // note'' @ [CHR 0x0A]) = Inl (LexerError 17)
   \<and> lexer (''variable x = "a"; '' @ [CHR 0x0A]) = Inl (LexerError 17)\<close>
proof -
  have a: \<open>\<forall>t \<in> set tokens. fst t \<noteq> ''COMMENT''\<close> if \<open>lexer input_text = Inr tokens\<close>
    using lexer_loop_no_comment[of input_text 0 "[]" tokens] that by (simp add: lexer_def)
  have b: \<open>lexer ''variable x = "a";// note''
           = Inr [(''VARIABLE'', ''variable x = "a"''), (''SEMICOLON'', '';'')]\<close> by code_simp
  have c: \<open>lexer ''variable x = "a";''
           = Inr [(''VARIABLE'', ''variable x = "a"''), (''SEMICOLON'', '';'')]\<close> by code_simp
  have d: \<open>lexer (''variable x = "a"; // note'' @ [CHR 0x0A]) = Inl (LexerError 17)\<close> by code_simp
  have e: \<open>lexer (''variable x = "a"; '' @ [CHR 0x0A]) = Inl (LexerError 17)\<close> by code_simp
  from b c have bc: \<open>lexer ''variable x = "a";// note'' = lexer ''variable x = "a";''\<close>
    by (rule trans[OF _ sym])
  show ?thesis
  proof (intro conjI impI)
    assume \<open>lexer input_text = Inr tokens\<close>
    then show \<open>\<forall>t \<in> set tokens. fst t \<noteq> ''COMMENT''\<close> by (rule a)
  qed (fact bc c d e)+
qed

theorem comments_never_reach_the_result_witness:
  \<open>lexer ''variable x = "a";// note''
     = Inr [(''VARIABLE'', ''variable x = "a"''), (''SEMICOLON'', '';'')]
   \<and> ''VARIABLE'' \<noteq> ''COMMENT'' \<and> ''SEMICOLON'' \<noteq> ''COMMENT''\<close>
proof -
  have b: \<open>lexer ''variable x = "a";// note''
           = Inr [(''VARIABLE'', ''variable x = "a"''), (''SEMICOLON'', '';'')]\<close> by code_simp
  have \<open>\<forall>t \<in> set [(''VARIABLE'', ''variable x = "a"''), (''SEMICOLON'', '';'')].
          fst t \<noteq> ''COMMENT''\<close>
    by (rule comments_never_reach_the_result[THEN conjunct1, THEN mp, OF b])
  then have \<open>''VARIABLE'' \<noteq> ''COMMENT'' \<and> ''SEMICOLON'' \<noteq> ''COMMENT''\<close>
    by simp
  with b show ?thesis by (intro conjI) simp_all
qed

section \<open>Claims about the parser\<close>

text \<open>
  C1. The claim: a top-level variable declaration parses to a \<open>VARIABLE\<close> node with the
  payload (name, annotation, value), and an identifier statement in a body parses as an
  assignment. The code does neither. The tokenizer emits the whole declaration as one
  \<open>VARIABLE\<close> token and never emits an \<open>EQUALS\<close> token, while \<open>parse_variable\<close> consumes
  \<open>IDENTIFIER\<close> and \<open>EQUALS\<close> tokens after it: on the tokens of any text,
  \<open>parse_variable\<close> and \<open>parse_assignment\<close> raise. In a body, a \<open>VARIABLE\<close> token is an
  unexpected statement token, and an identifier statement reaches \<open>peek(1)\<close>.
\<close>

theorem variable_declarations_do_not_parse:
  \<open>(lexer input_text = Inr tokens \<longrightarrow>
      (\<exists>e. parse_variable tokens index = Inl e) \<and> (\<exists>e. parse_assignment tokens index = Inl e))
   \<and> tokenize_and_parse ''variable x = "a"'' = Inl (ParserExpected ''IDENTIFIER'' None)
   \<and> tokenize_and_parse ''if"c"{variable x = "a";}''
       = Inl (ParserUnexpected (''VARIABLE'', ''variable x = "a"''))
   \<and> tokenize_and_parse ''if"c"{x;}'' = Inl TypeErrorPositionalArguments\<close>
proof -
  have a: \<open>(\<exists>e. parse_variable tokens index = Inl e) \<and> (\<exists>e. parse_assignment tokens index = Inl e)\<close>
    if \<open>lexer input_text = Inr tokens\<close>
  proof -
    from lexer_loop_no_EQUALS[of input_text 0 "[]" tokens] that
    have \<open>\<forall>t \<in> set tokens. fst t \<noteq> ''EQUALS''\<close> by (simp add: lexer_def)
    from parse_variable_needs_EQUALS[OF this] parse_assignment_needs_EQUALS[OF this]
    show ?thesis by simp
  qed
  have b: \<open>tokenize_and_parse ''variable x = "a"'' = Inl (ParserExpected ''IDENTIFIER'' None)\<close>
    by code_simp
  have c: \<open>tokenize_and_parse ''if"c"{variable x = "a";}''
           = Inl (ParserUnexpected (''VARIABLE'', ''variable x = "a"''))\<close>
    by code_simp
  have d: \<open>tokenize_and_parse ''if"c"{x;}'' = Inl TypeErrorPositionalArguments\<close>
    by code_simp
  show ?thesis
  proof (intro conjI impI)
    assume \<open>lexer input_text = Inr tokens\<close>
    from a[OF this] show \<open>\<exists>e. parse_variable tokens index = Inl e\<close>
      and \<open>\<exists>e. parse_assignment tokens index = Inl e\<close> by simp_all
  qed (fact b c d)+
qed

theorem variable_declarations_do_not_parse_witness:
  \<open>lexer ''variable x = "a"'' = Inr [(''VARIABLE'', ''variable x = "a"'')]
   \<and> (\<exists>e. parse_variable [(''VARIABLE'', ''variable x = "a"'')] 0 = Inl e)\<close>
proof -
  have l: \<open>lexer ''variable x = "a"'' = Inr [(''VARIABLE'', ''variable x = "a"'')]\<close>
    by code_simp
  have \<open>\<exists>e. parse_variable [(''VARIABLE'', ''variable x = "a"'')] 0 = Inl e\<close>
    by (rule variable_declarations_do_not_parse[THEN conjunct1, THEN mp, OF l, THEN conjunct1])
  with l show ?thesis by (rule conjI)
qed

text \<open>
  C2. The claim: \<open>peek\<close> accepts an offset and returns \<open>None\<close> past the end. In the code
  \<open>peek\<close> has no parameter, and the one call with an offset, \<open>peek(1)\<close> in
  \<open>parse_statement\<close>, raises \<open>TypeError\<close>: every statement that starts with an
  identifier fails this way. \<open>consume\<close> is as claimed: it returns the current token and
  advances by one exactly when there is a current token of the expected kind, and raises
  otherwise.
\<close>

theorem peek_has_no_offset_parameter:
  \<open>peek_args tokens index [offset] = Inl TypeErrorPositionalArguments
   \<and> (peek tokens index = Some token \<and> fst token = ''IDENTIFIER'' \<longrightarrow>
        parse_statement tokens index = Inl TypeErrorPositionalArguments)
   \<and> consume tokens index token_type
       = (if index < length tokens \<and> fst (tokens ! index) = token_type
          then Inr (tokens ! index, index + 1)
          else Inl (ParserExpected token_type (peek tokens index)))
   \<and> tokenize_and_parse ''if"a"{y;}'' = Inl TypeErrorPositionalArguments
   \<and> tokenize_and_parse ''if"a"{y(z);}'' = Inl TypeErrorPositionalArguments\<close>
proof -
  have a: \<open>peek_args tokens index [offset] = Inl TypeErrorPositionalArguments\<close>
    by (simp add: peek_args_def)
  have c: \<open>consume tokens index token_type
       = (if index < length tokens \<and> fst (tokens ! index) = token_type
          then Inr (tokens ! index, index + 1)
          else Inl (ParserExpected token_type (peek tokens index)))\<close>
    by (simp add: consume_def peek_def)
  have d: \<open>tokenize_and_parse ''if"a"{y;}'' = Inl TypeErrorPositionalArguments\<close>
    by code_simp
  have e: \<open>tokenize_and_parse ''if"a"{y(z);}'' = Inl TypeErrorPositionalArguments\<close>
    by code_simp
  show ?thesis
  proof (intro conjI impI)
    assume \<open>peek tokens index = Some token \<and> fst token = ''IDENTIFIER''\<close>
    then show \<open>parse_statement tokens index = Inl TypeErrorPositionalArguments\<close>
      using parse_statement_IDENTIFIER[of tokens index token] by simp
  qed (fact a c d e)+
qed

theorem peek_has_no_offset_parameter_witness:
  \<open>peek [(''IDENTIFIER'', ''y''), (''SEMICOLON'', '';'')] 0 = Some (''IDENTIFIER'', ''y'')
   \<and> parse_statement [(''IDENTIFIER'', ''y''), (''SEMICOLON'', '';'')] 0
       = Inl TypeErrorPositionalArguments\<close>
proof -
  have p: \<open>peek [(''IDENTIFIER'', ''y''), (''SEMICOLON'', '';'')] 0 = Some (''IDENTIFIER'', ''y'')
           \<and> fst (''IDENTIFIER'', ''y'') = ''IDENTIFIER''\<close>
    by (simp add: peek_def)
  have \<open>parse_statement [(''IDENTIFIER'', ''y''), (''SEMICOLON'', '';'')] 0
          = Inl TypeErrorPositionalArguments\<close>
    by (rule peek_has_no_offset_parameter[THEN conjunct2, THEN conjunct1, THEN mp, OF p])
  with p show ?thesis by simp
qed

text \<open>
  C4, as stated, fails: the text \<open>say("hi"; "there")\<close> has a space at offset 9, after the
  \<open>;\<close>, and is not tokenized.
\<close>

theorem say_call_with_space_is_lexer_error:
  \<open>tokenize_and_parse ''say("hi"; "there")'' = Inl (LexerError 9)\<close>
  by code_simp

text \<open>
  C4, amended. The text \<open>say("hi"; "there")\<close> fails in the tokenizer with the lexer error
  at offset 9. Without the space, \<open>say("hi";"there")\<close> is tokenized to an identifier, a
  parenthesis, two string literals separated by a semicolon and a parenthesis, and
  \<open>parse_function_call\<close> turns these tokens into a \<open>FUNCTION_CALL\<close> node whose children
  are, in order, the identifier \<open>say\<close> and the two string literals (with their quotes).
  Every node \<open>parse_function_call\<close> returns has the callee identifier as first child.
\<close>

theorem function_call_arguments_are_semicolon_separated:
  \<open>lexer ''say("hi"; "there")'' = Inl (LexerError 9)
   \<and> lexer ''say("hi";"there")''
       = Inr [(''IDENTIFIER'', ''say''), (''LPAREN'', ''(''), (''STRING'', ''"hi"''),
              (''SEMICOLON'', '';''), (''STRING'', ''"there"''), (''RPAREN'', '')'')]
   \<and> parse_function_call
         [(''IDENTIFIER'', ''say''), (''LPAREN'', ''(''), (''STRING'', ''"hi"''),
          (''SEMICOLON'', '';''), (''STRING'', ''"there"''), (''RPAREN'', '')'')] 0
       = Inr (Node ''FUNCTION_CALL''
                [Node ''IDENTIFIER'' [] (StrValue ''say''),
                 Node ''STRING'' [] (StrValue ''"hi"''),
                 Node ''STRING'' [] (StrValue ''"there"'')] NoValue, 6)
   \<and> (parse_function_call tokens index = Inr (n, i) \<longrightarrow>
        (\<exists>arguments.
           n = Node ''FUNCTION_CALL''
                 (Node ''IDENTIFIER'' [] (StrValue (snd (tokens ! index))) # arguments) NoValue
           \<and> fst (tokens ! index) = ''IDENTIFIER''))\<close>
proof -
  have a: \<open>lexer ''say("hi"; "there")'' = Inl (LexerError 9)\<close> by code_simp
  have b: \<open>lexer ''say("hi";"there")''
       = Inr [(''IDENTIFIER'', ''say''), (''LPAREN'', ''(''), (''STRING'', ''"hi"''),
              (''SEMICOLON'', '';''), (''STRING'', ''"there"''), (''RPAREN'', '')'')]\<close>
    by code_simp
  have c: \<open>parse_function_call
         [(''IDENTIFIER'', ''say''), (''LPAREN'', ''(''), (''STRING'', ''"hi"''),
          (''SEMICOLON'', '';''), (''STRING'', ''"there"''), (''RPAREN'', '')'')] 0
       = Inr (Node ''FUNCTION_CALL''
                [Node ''IDENTIFIER'' [] (StrValue ''say''),
                 Node ''STRING'' [] (StrValue ''"hi"''),
                 Node ''STRING'' [] (StrValue ''"there"'')] NoValue, 6)\<close>
    by code_simp
  show ?thesis
  proof (intro conjI impI)
    assume \<open>parse_function_call tokens index = Inr (n, i)\<close>
    then show \<open>\<exists>arguments.
           n = Node ''FUNCTION_CALL''
                 (Node ''IDENTIFIER'' [] (StrValue (snd (tokens ! index))) # arguments) NoValue
           \<and> fst (tokens ! index) = ''IDENTIFIER''\<close>
      by (rule parse_function_call_shape)
  qed (fact a b c)+
qed

theorem function_call_arguments_are_semicolon_separated_witness:
  \<open>parse_function_call [(''IDENTIFIER'', ''f''), (''LPAREN'', ''(''), (''RPAREN'', '')'')] 0
     = Inr (Node ''FUNCTION_CALL'' [Node ''IDENTIFIER'' [] (StrValue ''f'')] NoValue, 3)
   \<and> (\<exists>arguments.
         Node ''FUNCTION_CALL'' [Node ''IDENTIFIER'' [] (StrValue ''f'')] NoValue
         = Node ''FUNCTION_CALL''
             (Node ''IDENTIFIER'' []
               (StrValue (snd ([(''IDENTIFIER'', ''f''), (''LPAREN'', ''(''), (''RPAREN'', '')'')] ! 0)))
              # arguments) NoValue)\<close>
proof -
  have c: \<open>parse_function_call [(''IDENTIFIER'', ''f''), (''LPAREN'', ''(''), (''RPAREN'', '')'')] 0
     = Inr (Node ''FUNCTION_CALL'' [Node ''IDENTIFIER'' [] (StrValue ''f'')] NoValue, 3)\<close>
    by code_simp
  from function_call_arguments_are_semicolon_separated
         [THEN conjunct2, THEN conjunct2, THEN conjunct2, THEN mp, OF c]
  have \<open>\<exists>arguments.
         Node ''FUNCTION_CALL'' [Node ''IDENTIFIER'' [] (StrValue ''f'')] NoValue
         = Node ''FUNCTION_CALL''
             (Node ''IDENTIFIER'' []
               (StrValue (snd ([(''IDENTIFIER'', ''f''), (''LPAREN'', ''(''), (''RPAREN'', '')'')] ! 0)))
              # arguments) NoValue\<close>
    by blast
  with c show ?thesis by (rule conjI)
qed

text \<open>
  C6, as stated, fails: the text \<open>if x { \<close> does not reach the parser. After \<open>if\<close> stands a
  space, and the failure is the lexer error at offset 2, not a parse error.
\<close>

theorem unterminated_if_with_spaces_is_lexer_error:
  \<open>tokenize_and_parse ''if x { '' = Inl (LexerError 2)\<close>
  by code_simp

text \<open>
  C6, amended. If the token sequence is exhausted where the body loop expects a statement
  or the closing brace, parsing fails with the parse error that expected \<open>RBRACE\<close> and
  found the end of input; \<open>parse_body\<close> succeeds only by consuming a closing brace as its
  last token, so on tokens without a closing brace it never returns a tree. The text
  \<open>if"x"{\<close> fails with that parse error; the text \<open>if x { \<close> fails in the tokenizer, at
  offset 2, and never succeeds either.
\<close>

theorem unterminated_body_fails:
  \<open>(length tokens \<le> index \<longrightarrow>
      body_loop tokens index statements = Inl (ParserExpected ''RBRACE'' None))
   \<and> (parse_body tokens index = Inr (n, i) \<longrightarrow>
        0 < i \<and> i \<le> length tokens \<and> fst (tokens ! (i - 1)) = ''RBRACE'')
   \<and> ((\<forall>t \<in> set tokens. fst t \<noteq> ''RBRACE'') \<longrightarrow> (\<exists>e. parse_body tokens index = Inl e))
   \<and> tokenize_and_parse ''if"x"{'' = Inl (ParserExpected ''RBRACE'' None)
   \<and> tokenize_and_parse ''if x { '' = Inl (LexerError 2)\<close>
proof -
  have d: \<open>tokenize_and_parse ''if"x"{'' = Inl (ParserExpected ''RBRACE'' None)\<close> by code_simp
  have e: \<open>tokenize_and_parse ''if x { '' = Inl (LexerError 2)\<close> by code_simp
  show ?thesis
  proof (intro conjI impI)
    assume \<open>length tokens \<le> index\<close>
    then show \<open>body_loop tokens index statements = Inl (ParserExpected ''RBRACE'' None)\<close>
      by (rule body_loop_exhausted)
  next
    assume p: \<open>parse_body tokens index = Inr (n, i)\<close>
    from body_ends_with_RBRACE(2)[OF p]
    show \<open>0 < i\<close> and \<open>i \<le> length tokens\<close> and \<open>fst (tokens ! (i - 1)) = ''RBRACE''\<close>
      by simp_all
  next
    assume \<open>\<forall>t \<in> set tokens. fst t \<noteq> ''RBRACE''\<close>
    then show \<open>\<exists>e. parse_body tokens index = Inl e\<close> by (rule parse_body_without_RBRACE)
  qed (fact d e)+
qed

theorem unterminated_body_fails_witness:
  \<open>body_loop [(''IF'', ''if''), (''STRING'', ''"x"''), (''LBRACE'', ''{'')] 3 []
     = Inl (ParserExpected ''RBRACE'' None)
   \<and> (\<exists>e. parse_body [(''IF'', ''if''), (''STRING'', ''"x"''), (''LBRACE'', ''{'')] 2 = Inl e)
   \<and> parse_body [(''LBRACE'', ''{''), (''RBRACE'', ''}'')] 0 = Inr (Node ''BODY'' [] NoValue, 2)
   \<and> fst ([(''LBRACE'', ''{''), (''RBRACE'', ''}'')] ! (2 - 1)) = ''RBRACE''\<close>
proof -
  have l: \<open>length [(''IF'', ''if''), (''STRING'', ''"x"''), (''LBRACE'', ''{'')] \<le> 3\<close> by simp
  have a: \<open>body_loop [(''IF'', ''if''), (''STRING'', ''"x"''), (''LBRACE'', ''{'')] 3 []
     = Inl (ParserExpected ''RBRACE'' None)\<close>
    by (rule unterminated_body_fails[THEN conjunct1, THEN mp, OF l])
  have nb: \<open>\<forall>t \<in> set [(''IF'', ''if''), (''STRING'', ''"x"''), (''LBRACE'', ''{'')].
              fst t \<noteq> ''RBRACE''\<close> by simp
  have b: \<open>\<exists>e. parse_body [(''IF'', ''if''), (''STRING'', ''"x"''), (''LBRACE'', ''{'')] 2 = Inl e\<close>
    by (rule unterminated_body_fails[THEN conjunct2, THEN conjunct2, THEN conjunct1, THEN mp, OF nb])
  have c: \<open>parse_body [(''LBRACE'', ''{''), (''RBRACE'', ''}'')] 0 = Inr (Node ''BODY'' [] NoValue, 2)\<close>
    by code_simp
  from unterminated_body_fails[THEN conjunct2, THEN conjunct1, THEN mp, OF c]
  have d: \<open>fst ([(''LBRACE'', ''{''), (''RBRACE'', ''}'')] ! (2 - 1)) = ''RBRACE''\<close> by blast
  from a b c d show ?thesis by (intro conjI)
qed

text \<open>
  C9. The claim: a right-hand side \<open>true\<close> or \<open>false\<close> of a variable declaration is
  classified as a boolean literal and ends as a logical value in the payload of the
  declaration. In the code no text gets there. The tokenizer takes \<open>variable x = true\<close> as
  one \<open>VARIABLE\<close> token (rule 3 spans the value), and a bare \<open>true\<close> is an identifier, so
  no \<open>BOOLEAN\<close> token arises from a declaration; \<open>parse_variable\<close> then raises on the
  tokens of every text, as under C1, and no payload is built. Even on the token sequence
  \<open>VARIABLE\<close>, \<open>IDENTIFIER\<close>, \<open>EQUALS\<close>, \<open>BOOLEAN\<close>, which no text produces, \<open>parse\<close>
  raises: the \<open>BOOLEAN\<close> branch of \<open>parse_value\<close> returns without the \<open>consume\<close> that
  its \<open>STRING\<close> and \<open>IDENTIFIER\<close> branches make, and the loop of \<open>parse\<close> meets the
  \<open>BOOLEAN\<close> token again.
\<close>

theorem boolean_right_hand_side_is_not_converted:
  \<open>lexer ''variable x = true'' = Inr [(''VARIABLE'', ''variable x = true'')]
   \<and> lexer ''variable x = false'' = Inr [(''VARIABLE'', ''variable x = false'')]
   \<and> lexer ''true'' = Inr [(''IDENTIFIER'', ''true'')]
   \<and> tokenize_and_parse ''variable x = true'' = Inl (ParserExpected ''IDENTIFIER'' None)
   \<and> tokenize_and_parse ''variable x = false'' = Inl (ParserExpected ''IDENTIFIER'' None)
   \<and> (lexer input_text = Inr tokens \<longrightarrow> (\<exists>e. parse_variable tokens index = Inl e))
   \<and> parse [(''VARIABLE'', ''variable''), (''IDENTIFIER'', ''x''), (''EQUALS'', ''=''),
             (''BOOLEAN'', ''true'')]
       = Inl (ParserUnexpected (''BOOLEAN'', ''true''))\<close>
proof -
  have a: \<open>lexer ''variable x = true'' = Inr [(''VARIABLE'', ''variable x = true'')]\<close>
    by code_simp
  have b: \<open>lexer ''variable x = false'' = Inr [(''VARIABLE'', ''variable x = false'')]\<close>
    by code_simp
  have c: \<open>lexer ''true'' = Inr [(''IDENTIFIER'', ''true'')]\<close> by code_simp
  have d: \<open>tokenize_and_parse ''variable x = true'' = Inl (ParserExpected ''IDENTIFIER'' None)\<close>
    by code_simp
  have e: \<open>tokenize_and_parse ''variable x = false'' = Inl (ParserExpected ''IDENTIFIER'' None)\<close>
    by code_simp
  have f: \<open>parse [(''VARIABLE'', ''variable''), (''IDENTIFIER'', ''x''), (''EQUALS'', ''=''),
             (''BOOLEAN'', ''true'')]
       = Inl (ParserUnexpected (''BOOLEAN'', ''true''))\<close>
    by code_simp
  show ?thesis
  proof (intro conjI impI)
    assume l: \<open>lexer input_text = Inr tokens\<close>
    from lexer_loop_no_EQUALS[of input_text 0 "[]" tokens] l
    have \<open>\<forall>t \<in> set tokens. fst t \<noteq> ''EQUALS''\<close> by (simp add: lexer_def)
    then show \<open>\<exists>e. parse_variable tokens index = Inl e\<close>
      by (rule parse_variable_needs_EQUALS)
  qed (fact a b c d e f)+
qed

theorem boolean_right_hand_side_is_not_converted_witness:
  \<open>lexer ''variable x = true'' = Inr [(''VARIABLE'', ''variable x = true'')]
   \<and> (\<exists>e. parse_variable [(''VARIABLE'', ''variable x = true'')] 0 = Inl e)\<close>
proof -
  have l: \<open>lexer ''variable x = true'' = Inr [(''VARIABLE'', ''variable x = true'')]\<close>
    by code_simp
  have \<open>\<exists>e. parse_variable [(''VARIABLE'', ''variable x = true'')] 0 = Inl e\<close>
    by (rule boolean_right_hand_side_is_not_converted
          [THEN conjunct2, THEN conjunct2, THEN conjunct2, THEN conjunct2, THEN conjunct2,
           THEN conjunct1, THEN mp, OF l])
  with l show ?thesis by (rule conjI)
qed

end
